theory Spec2Isabelle
  imports Main "HOL-Library.AList" "HOL-Library.List_Lexorder"
begin

section \<open>JavaScript strings and optional arguments\<close>

text \<open>
  Source strings are modelled as \<^typ>\<open>string\<close>. An optional argument
  (\<^verbatim>\<open>service?: string\<close>) is a \<^typ>\<open>string option\<close>, \<open>None\<close> standing for
  \<^verbatim>\<open>undefined\<close>. A JavaScript condition on such a value is true for a non-empty
  string only: \<^verbatim>\<open>undefined\<close> and \<^verbatim>\<open>""\<close> are both falsy.
\<close>

definition truthy :: "string option \<Rightarrow> bool" where
  "truthy v = (case v of None \<Rightarrow> False | Some s \<Rightarrow> s \<noteq> [])"

text \<open>\<^verbatim>\<open>a || d\<close> for an optional string \<open>a\<close> and a string \<open>d\<close>.\<close>

definition orElse :: "string option \<Rightarrow> string \<Rightarrow> string" where
  "orElse v d = (case v of None \<Rightarrow> d | Some s \<Rightarrow> (if s = [] then d else s))"

text \<open>\<^verbatim>\<open>s.startsWith(p)\<close>.\<close>

definition startsWith :: "string \<Rightarrow> string \<Rightarrow> bool" where
  "startsWith s p = (take (length p) s = p)"

text \<open>
  \<^verbatim>\<open>s.split(sep)\<close> for a string separator: the occurrences of \<open>sep\<close> are found
  from left to right, without overlap, and the pieces between them are returned (so the
  result is never empty). \<open>splitFrom sep cur s\<close> scans \<open>s\<close> with \<open>cur\<close> the piece
  read so far. With the empty separator JavaScript returns the code units one by one.
\<close>

function splitFrom :: "string \<Rightarrow> string \<Rightarrow> string \<Rightarrow> string list" where
  "splitFrom sep cur [] = [cur]"
| "splitFrom sep cur (c # cs) =
     (if sep \<noteq> [] \<and> startsWith (c # cs) sep
      then cur # splitFrom sep [] (drop (length sep) (c # cs))
      else splitFrom sep (cur @ [c]) cs)"
  by pat_completeness auto
termination
  by (relation "measure (\<lambda>(sep, cur, s). length s)") (auto simp: neq_Nil_conv)

definition js_split :: "string \<Rightarrow> string \<Rightarrow> string list" where
  "js_split s sep = (if sep = [] then map (\<lambda>c. [c]) s else splitFrom sep [] s)"

section \<open>Identifier validation and the namespace codec (lib/secrets.ts)\<close>

datatype error =
    InvalidServiceName string
  | InvalidEnvName string
  | InvalidKeyName string
  | EnvRequiresService
  | UnsupportedPlatform string
  | StoreError string
  | CommandFailed string

definition DEFAULT_SERVICE :: string where
  "DEFAULT_SERVICE = ''_''"

text \<open>The character classes of the three patterns, written out.\<close>

definition lowerChars :: string where
  "lowerChars = ''abcdefghijklmnopqrstuvwxyz''"

definition upperChars :: string where
  "upperChars = ''ABCDEFGHIJKLMNOPQRSTUVWXYZ''"

definition digitChars :: string where
  "digitChars = ''0123456789''"

text \<open>\<^verbatim>\<open>[a-zA-Z0-9._-]\<close>\<close>

definition serviceChar :: "char \<Rightarrow> bool" where
  "serviceChar c = (c \<in> set (lowerChars @ upperChars @ digitChars @ ''._-''))"

text \<open>\<^verbatim>\<open>[a-zA-Z0-9_-]\<close>\<close>

definition envChar :: "char \<Rightarrow> bool" where
  "envChar c = (c \<in> set (lowerChars @ upperChars @ digitChars @ ''_-''))"

text \<open>\<^verbatim>\<open>[A-Z]\<close> and \<^verbatim>\<open>[A-Z0-9_]\<close>\<close>

definition keyHeadChar :: "char \<Rightarrow> bool" where
  "keyHeadChar c = (c \<in> set upperChars)"

definition keyTailChar :: "char \<Rightarrow> bool" where
  "keyTailChar c = (c \<in> set (upperChars @ digitChars @ ''_''))"

text \<open>
  \<^verbatim>\<open>SERVICE_PATTERN = /^[a-zA-Z0-9._-]+$/\<close>, \<^verbatim>\<open>ENV_PATTERN = /^[a-zA-Z0-9_-]+$/\<close>,
  \<^verbatim>\<open>KEY_PATTERN = /^[A-Z][A-Z0-9_]*$/\<close>, each used through \<^verbatim>\<open>test\<close>. Without the
  \<^verbatim>\<open>m\<close> flag \<^verbatim>\<open>^\<close> and \<^verbatim>\<open>$\<close> are the two ends of the input.
\<close>

definition SERVICE_PATTERN :: "string \<Rightarrow> bool" where
  "SERVICE_PATTERN s = (s \<noteq> [] \<and> list_all serviceChar s)"

definition ENV_PATTERN :: "string \<Rightarrow> bool" where
  "ENV_PATTERN s = (s \<noteq> [] \<and> list_all envChar s)"

definition KEY_PATTERN :: "string \<Rightarrow> bool" where
  "KEY_PATTERN s = (case s of [] \<Rightarrow> False | c # cs \<Rightarrow> keyHeadChar c \<and> list_all keyTailChar cs)"

definition validateService :: "string \<Rightarrow> error + unit" where
  "validateService s =
     (if s \<noteq> DEFAULT_SERVICE \<and> \<not> SERVICE_PATTERN s then Inl (InvalidServiceName s)
      else Inr ())"

definition validateEnv :: "string \<Rightarrow> error + unit" where
  "validateEnv e = (if \<not> ENV_PATTERN e then Inl (InvalidEnvName e) else Inr ())"

definition validateKey :: "string \<Rightarrow> error + unit" where
  "validateKey k = (if \<not> KEY_PATTERN k then Inl (InvalidKeyName k) else Inr ())"

text \<open>
  \<^verbatim>\<open>buildServiceName(service?, env?)\<close>. Each \<^verbatim>\<open>throw\<close> is an \<open>Inl\<close>; the
  validators are called in the order of the source, the first failure ending the call.
\<close>

definition buildServiceName :: "string option \<Rightarrow> string option \<Rightarrow> error + string" where
  "buildServiceName serviceArg envArg =
     (let svc = orElse serviceArg DEFAULT_SERVICE in
      if truthy envArg then
        (if \<not> truthy serviceArg then Inl EnvRequiresService
         else
           (case validateService (the serviceArg) of
              Inl e \<Rightarrow> Inl e
            | Inr _ \<Rightarrow>
                (case validateEnv (the envArg) of
                   Inl e \<Rightarrow> Inl e
                 | Inr _ \<Rightarrow> Inr (the serviceArg @ ''::'' @ the envArg))))
      else
        (case validateService svc of
           Inl e \<Rightarrow> Inl e
         | Inr _ \<Rightarrow> Inr svc))"

text \<open>
  \<^verbatim>\<open>parseServiceName(serviceName)\<close> returns \<^verbatim>\<open>{ service, env? }\<close>, here a pair
  whose second component is \<open>None\<close> when the field is not set. \<^verbatim>\<open>parts[0] && parts[1]\<close>
  holds when both strings are non-empty.
\<close>

definition parseServiceName :: "string \<Rightarrow> string \<times> string option" where
  "parseServiceName serviceName =
     (case js_split serviceName ''::'' of
        [p0, p1] \<Rightarrow> (if p0 \<noteq> [] \<and> p1 \<noteq> [] then (p0, Some p1) else (serviceName, None))
      | _ \<Rightarrow> (serviceName, None))"

text \<open>\<^verbatim>\<open>parts.join(sep)\<close>, used to state what \<open>js_split\<close> returns.\<close>

fun joinSep :: "string \<Rightarrow> string list \<Rightarrow> string" where
  "joinSep sep [] = []"
| "joinSep sep [p] = p"
| "joinSep sep (p # q # ps) = p @ sep @ joinSep sep (q # ps)"

section \<open>The secret store and the per-layer fetch (lib/secrets.ts)\<close>

text \<open>
  \<^verbatim>\<open>Bun.secrets.get({ service, name })\<close> is an external collaborator: it answers
  with a value, with \<^verbatim>\<open>null\<close> (\<open>Inr None\<close>) or it rejects (\<open>Inl\<close>). The store is
  only read here, so it is a function of the pair addressed. A computation that calls the
  store returns the calls it made, in order, beside its result.
\<close>

type_synonym secret_store = "string \<Rightarrow> string \<Rightarrow> error + string option"

type_synonym store_call = "string \<times> string"

text \<open>
  A \<^verbatim>\<open>Record<string, string>\<close> built from \<^verbatim>\<open>{}\<close> is the map of its own
  properties. The assignment \<^verbatim>\<open>obj[key] = value\<close> of a string creates or overwrites
  the own property \<open>key\<close>, except for the key \<^verbatim>\<open>__proto__\<close>: that name is an
  accessor of \<^verbatim>\<open>Object.prototype\<close>, whose setter ignores a string, so the object is
  left as it was. Every other name inherited from \<^verbatim>\<open>Object.prototype\<close> is a writable
  data property, which the assignment shadows with an own property.
\<close>

definition objSet :: "(string \<rightharpoonup> string) \<Rightarrow> string \<Rightarrow> string \<Rightarrow> (string \<rightharpoonup> string)" where
  "objSet obj k v = (if k = ''__proto__'' then obj else obj(k \<mapsto> v))"

text \<open>
  The loop of \<^verbatim>\<open>getSecretsForService\<close>: \<open>result\<close> is the object built so far. A
  rejected \<^verbatim>\<open>get\<close> ends the loop with that error, as the \<^verbatim>\<open>await\<close> rethrows it.
\<close>

fun getSecretsLoop ::
  "secret_store \<Rightarrow> string \<Rightarrow> string list \<Rightarrow> (string \<rightharpoonup> string)
     \<Rightarrow> store_call list \<times> (error + (string \<rightharpoonup> string))" where
  "getSecretsLoop st serviceName [] result = ([], Inr result)"
| "getSecretsLoop st serviceName (k # keys) result =
     (case st serviceName k of
        Inl e \<Rightarrow> ([(serviceName, k)], Inl e)
      | Inr val \<Rightarrow>
          (case getSecretsLoop st serviceName keys
                  (case val of None \<Rightarrow> result | Some v \<Rightarrow> objSet result k v) of
             (calls, r) \<Rightarrow> ((serviceName, k) # calls, r)))"

definition getSecretsForService ::
  "secret_store \<Rightarrow> string \<Rightarrow> string list
     \<Rightarrow> store_call list \<times> (error + (string \<rightharpoonup> string))" where
  "getSecretsForService st serviceName keys = getSecretsLoop st serviceName keys Map.empty"

section \<open>Entries, the filter and the grouping (lib/enumerate.ts)\<close>

record SecretEntry =
  service :: string
  key :: string

text \<open>
  \<^verbatim>\<open>servicePattern = /^(_|[a-zA-Z0-9._-]+(::[a-zA-Z0-9_-]+)?)$/\<close>: the whole string
  is \<^verbatim>\<open>_\<close>, or a run of service characters, or such a run, \<^verbatim>\<open>::\<close> and a run of
  environment characters; the last case holds when some position \<open>i\<close> cuts the string so.
  \<^verbatim>\<open>keyPattern\<close> is the pattern of \<open>KEY_PATTERN\<close>.
\<close>

definition servicePattern :: "string \<Rightarrow> bool" where
  "servicePattern s =
     (s = ''_'' \<or> SERVICE_PATTERN s \<or>
      list_ex (\<lambda>i. SERVICE_PATTERN (take i s) \<and> take 2 (drop i s) = ''::'' \<and>
                     ENV_PATTERN (drop (i + 2) s)) [0..<length s])"

definition filterShhEnvEntries :: "SecretEntry list \<Rightarrow> SecretEntry list" where
  "filterShhEnvEntries es =
     filter (\<lambda>entry. servicePattern (service entry) \<and> KEY_PATTERN (key entry)) es"

text \<open>
  A \<^verbatim>\<open>Map<string, string[]>\<close> is an association list in insertion order;
  \<^verbatim>\<open>groups.set\<close> on a key already there keeps its place (\<open>AList.update\<close>), and
  \<^verbatim>\<open>groups.get(layer) || []\<close> is \<open>groupsGet\<close> (an array, even an empty one, is truthy).
  \<^verbatim>\<open>keys.sort()\<close> is stable and orders strings by their UTF-16 code units. On the
  UTF-8 bytes of two strings that is the order of the bytes, except that a character
  outside the basic plane (lead byte \<^verbatim>\<open>F0\<close> to \<^verbatim>\<open>F4\<close>, a surrogate pair in UTF-16)
  comes before the characters U+E000 to U+FFFF (lead byte \<^verbatim>\<open>EE\<close> or \<^verbatim>\<open>EF\<close>);
  \<open>utf16Rank\<close> ranks the bytes so.
\<close>

definition utf16Rank :: "char \<Rightarrow> nat" where
  "utf16Rank c = (if c = CHR 0xEE \<or> c = CHR 0xEF then of_char c + 256 else of_char c)"

type_synonym groups = "(string \<times> string list) list"

definition groupsGet :: "groups \<Rightarrow> string \<Rightarrow> string list" where
  "groupsGet g layer = (case map_of g layer of None \<Rightarrow> [] | Some keys \<Rightarrow> keys)"

definition groupByService :: "SecretEntry list \<Rightarrow> groups" where
  "groupByService es =
     map (\<lambda>(svc, keys). (svc, sort_key (map utf16Rank) keys))
       (foldl (\<lambda>g entry. AList.update (service entry) (groupsGet g (service entry) @ [key entry]) g)
          [] es)"

section \<open>The flat merge of the run command (commands/run.ts)\<close>

text \<open>The layers of \<^verbatim>\<open>getMergedSecrets\<close>: \<^verbatim>\<open>_\<close>, then the service, then service::env.\<close>

definition runLayers :: "string option \<Rightarrow> string option \<Rightarrow> string list" where
  "runLayers serviceArg envArg =
     [''_''] @
     (if truthy serviceArg then
        [the serviceArg] @
        (if truthy envArg then [the serviceArg @ ''::'' @ the envArg] else [])
      else [])"

text \<open>
  The merging loop; \<open>merged\<close> is the object built so far and \<^verbatim>\<open>Object.assign\<close> is
  \<open>++\<close>. A layer whose key list is empty makes no call.
\<close>

fun mergeLoop ::
  "secret_store \<Rightarrow> groups \<Rightarrow> string list \<Rightarrow> (string \<rightharpoonup> string)
     \<Rightarrow> store_call list \<times> (error + (string \<rightharpoonup> string))" where
  "mergeLoop st g [] merged = ([], Inr merged)"
| "mergeLoop st g (layer # layers) merged =
     (let keys = groupsGet g layer in
      if length keys > 0 then
        (case getSecretsForService st layer keys of
           (calls, Inl e) \<Rightarrow> (calls, Inl e)
         | (calls, Inr secrets) \<Rightarrow>
             (case mergeLoop st g layers (merged ++ secrets) of
                (calls', r) \<Rightarrow> (calls @ calls', r)))
      else mergeLoop st g layers merged)"

definition mergeGroups ::
  "secret_store \<Rightarrow> groups \<Rightarrow> string option \<Rightarrow> string option
     \<Rightarrow> store_call list \<times> (error + (string \<rightharpoonup> string))" where
  "mergeGroups st g serviceArg envArg = mergeLoop st g (runLayers serviceArg envArg) Map.empty"

text \<open>
  \<^verbatim>\<open>getMergedSecrets(service?, env?)\<close>, given what \<^verbatim>\<open>enumerateSecrets()\<close> returned.
\<close>

definition getMergedSecrets ::
  "secret_store \<Rightarrow> error + SecretEntry list \<Rightarrow> string option \<Rightarrow> string option
     \<Rightarrow> store_call list \<times> (error + (string \<rightharpoonup> string))" where
  "getMergedSecrets st enumerated serviceArg envArg =
     (case enumerated of
        Inl e \<Rightarrow> ([], Inl e)
      | Inr allEntries \<Rightarrow>
          mergeGroups st (groupByService (filterShhEnvEntries allEntries)) serviceArg envArg)"

text \<open>
  Vocabulary of the statements: the value the store holds for a key of a layer (\<open>None\<close>
  when it holds none or the call fails), and "layer \<open>L\<close> defines \<open>k\<close> as \<open>v\<close>": the
  group of \<open>L\<close> lists \<open>k\<close> and the store answers \<open>v\<close> for it. \<open>layerValues\<close> is the
  object \<^verbatim>\<open>getSecretsForService\<close> returns for a layer when the store answers.
\<close>

definition fetched :: "secret_store \<Rightarrow> string \<Rightarrow> string \<Rightarrow> string option" where
  "fetched st layer k = (case st layer k of Inl e \<Rightarrow> None | Inr v \<Rightarrow> v)"

definition layerDefines :: "secret_store \<Rightarrow> groups \<Rightarrow> string \<Rightarrow> string \<Rightarrow> string \<Rightarrow> bool" where
  "layerDefines st g layer k v = (k \<in> set (groupsGet g layer) \<and> st layer k = Inr (Some v))"

definition layerValues :: "secret_store \<Rightarrow> groups \<Rightarrow> string \<Rightarrow> (string \<rightharpoonup> string)" where
  "layerValues st g layer =
     (\<lambda>k. if k \<in> set (groupsGet g layer) \<and> k \<noteq> ''__proto__'' then fetched st layer k
          else None)"

text \<open>
  The store answers (with a value or with \<^verbatim>\<open>null\<close>) every call the merge makes:
  the calls for the keys the group map lists under the layers.
\<close>

definition keysOk :: "secret_store \<Rightarrow> string \<Rightarrow> string list \<Rightarrow> bool" where
  "keysOk st layer keys = list_all (\<lambda>k. case st layer k of Inl e \<Rightarrow> False | Inr v \<Rightarrow> True) keys"

definition storeAnswers :: "secret_store \<Rightarrow> groups \<Rightarrow> string list \<Rightarrow> bool" where
  "storeAnswers st g layers = list_all (\<lambda>layer. keysOk st layer (groupsGet g layer)) layers"

text \<open>
  The example of the specification: the layers \<^verbatim>\<open>_\<close>, \<^verbatim>\<open>app\<close> and \<^verbatim>\<open>app::dev\<close>
  define \<^verbatim>\<open>X\<close> as 1, 2 and 3. This store rejects every other call. The second store
  holds a value for \<^verbatim>\<open>X\<close> under \<^verbatim>\<open>app\<close> only and answers \<^verbatim>\<open>null\<close> elsewhere.
\<close>

definition exampleStore :: secret_store where
  "exampleStore layer k =
     (if layer = ''_'' \<and> k = ''X'' then Inr (Some ''1'')
      else if layer = ''app'' \<and> k = ''X'' then Inr (Some ''2'')
      else if layer = ''app::dev'' \<and> k = ''X'' then Inr (Some ''3'')
      else Inl (StoreError ''unavailable''))"

definition exampleGroups :: groups where
  "exampleGroups = [(''_'', [''X'']), (''app'', [''X'']), (''app::dev'', [''X''])]"

definition sparseStore :: secret_store where
  "sparseStore layer k =
     (if layer = ''app'' \<and> k = ''X'' then Inr (Some ''2'') else Inr None)"

text \<open>A store that holds a value under the name \<^verbatim>\<open>__proto__\<close>, in every namespace.\<close>

definition protoStore :: secret_store where
  "protoStore layer k = (if k = ''__proto__'' then Inr (Some ''x'') else Inr None)"

section \<open>The merged view of the list command (commands/list.ts)\<close>

text \<open>
  Output is the list of the lines written by \<^verbatim>\<open>console.log\<close>, in order. The strings
  printed are bytes: \<^verbatim>\<open>\x1b[9m\<close> and \<^verbatim>\<open>\x1b[0m\<close> for the strikethrough, and the
  UTF-8 encoding of the two box-drawing prefixes (U+251C or U+2514, twice U+2500, a space).
\<close>

definition STRIKETHROUGH_START :: string where
  "STRIKETHROUGH_START = CHR 0x1B # ''[9m''"

definition STRIKETHROUGH_END :: string where
  "STRIKETHROUGH_END = CHR 0x1B # ''[0m''"

definition branchMid :: string where
  "branchMid = [CHR 0xE2, CHR 0x94, CHR 0x9C, CHR 0xE2, CHR 0x94, CHR 0x80,
                CHR 0xE2, CHR 0x94, CHR 0x80, CHR 0x20]"

definition branchLast :: string where
  "branchLast = [CHR 0xE2, CHR 0x94, CHR 0x94, CHR 0xE2, CHR 0x94, CHR 0x80,
                 CHR 0xE2, CHR 0x94, CHR 0x80, CHR 0x20]"

text \<open>\<^verbatim>\<open>printTree(keys)\<close>: the last key takes the closing branch.\<close>

fun printTree :: "string list \<Rightarrow> string list" where
  "printTree [] = []"
| "printTree (k # keys) =
     ((if keys = [] then branchLast else branchMid) @ k) # printTree keys"

text \<open>
  \<^verbatim>\<open>printTreeWithOverrides(keys, layer, overriddenKeys)\<close>: a key is struck through when
  the set holds the string \<^verbatim>\<open>`${layer}:${key}`\<close>.
\<close>

fun printTreeWithOverrides :: "string list \<Rightarrow> string \<Rightarrow> string set \<Rightarrow> string list" where
  "printTreeWithOverrides [] layer ov = []"
| "printTreeWithOverrides (k # keys) layer ov =
     (let pre = (if keys = [] then branchLast else branchMid) in
      (if layer @ '':'' @ k \<in> ov then pre @ STRIKETHROUGH_START @ k @ STRIKETHROUGH_END
       else pre @ k)
      # printTreeWithOverrides keys layer ov)"

text \<open>
  The layers of \<^verbatim>\<open>printMergedView(groups, service, env?)\<close>; here the service is a
  string, and the command calls the function only with a non-empty one.
\<close>

definition listLayers :: "string \<Rightarrow> string option \<Rightarrow> string list" where
  "listLayers svc envArg =
     [''_'', svc] @ (if truthy envArg then [svc @ ''::'' @ the envArg] else [])"

text \<open>
  The first loop: \<^verbatim>\<open>winningLayer.set(key, layer)\<close> for every key of every layer, in
  order. The second loop runs over all layers but the last, skips an empty layer name
  (\<^verbatim>\<open>if (!layer) continue\<close>) and adds \<^verbatim>\<open>`${layer}:${key}`\<close> for every key of the
  layer whose winning layer is another one.
\<close>

definition winningLayer :: "groups \<Rightarrow> string list \<Rightarrow> (string \<rightharpoonup> string)" where
  "winningLayer g layers =
     foldl (\<lambda>w layer. foldl (\<lambda>w' k. w'(k \<mapsto> layer)) w (groupsGet g layer)) Map.empty layers"

definition overriddenKeys :: "groups \<Rightarrow> string list \<Rightarrow> string set" where
  "overriddenKeys g layers =
     (let w = winningLayer g layers in
      foldl (\<lambda>ov layer.
               if layer = [] then ov
               else foldl (\<lambda>ov' k. if w k \<noteq> Some layer then insert (layer @ '':'' @ k) ov'
                                     else ov')
                      ov (groupsGet g layer))
        {} (butlast layers))"

text \<open>
  The printing loop, \<open>i\<close> being the index of the layer at the head of the list. The blank
  line is written before the layer is looked at.
\<close>

fun printLayersFrom :: "groups \<Rightarrow> string set \<Rightarrow> nat \<Rightarrow> string list \<Rightarrow> string list" where
  "printLayersFrom g ov i [] = []"
| "printLayersFrom g ov i (layer # layers) =
     (if layer = [] then printLayersFrom g ov (Suc i) layers
      else
        (let keys = groupsGet g layer;
             blank = (if i > 0 then [[]] else [])
         in if keys = [] \<and> layer \<noteq> ''_'' then blank @ printLayersFrom g ov (Suc i) layers
            else if keys = [] then blank @ [layer] @ printLayersFrom g ov (Suc i) layers
            else blank @ [layer] @ printTreeWithOverrides keys layer ov
                   @ printLayersFrom g ov (Suc i) layers))"

definition printMergedView :: "groups \<Rightarrow> string \<Rightarrow> string option \<Rightarrow> string list" where
  "printMergedView g svc envArg =
     (let layers = listLayers svc envArg in
      printLayersFrom g (overriddenKeys g layers) 0 layers)"

text \<open>
  Vocabulary of the statements on the merged view: the last of the layers whose group
  lists the key, and a group map whose keys all follow the key grammar (as every map
  built from the filtered entries does).
\<close>

definition lastLayerWith :: "groups \<Rightarrow> string list \<Rightarrow> string \<Rightarrow> string" where
  "lastLayerWith g layers k = last (filter (\<lambda>layer. k \<in> set (groupsGet g layer)) layers)"

definition validKeys :: "groups \<Rightarrow> bool" where
  "validKeys g = list_all (\<lambda>(ns, keys). list_all KEY_PATTERN keys) g"

section \<open>Text helpers of the enumeration (lib/enumerate.ts)\<close>

text \<open>
  The output of the listing commands is text decoded from UTF-8; a string is the list of
  its UTF-8 bytes. \<^verbatim>\<open>trim()\<close> and the class \<^verbatim>\<open>\s\<close> of a regular expression
  remove or match the white space and line terminator characters of ECMAScript: U+0009 to
  U+000D, U+0020, U+00A0, U+1680, U+2000 to U+200A, U+2028, U+2029, U+202F, U+205F, U+3000
  and U+FEFF, listed here by their encodings.
\<close>

definition whiteSpaceSeqs :: "string list" where
  "whiteSpaceSeqs =
     [[CHR 0x09], [CHR 0x0A], [CHR 0x0B], [CHR 0x0C], [CHR 0x0D], [CHR 0x20],
      [CHR 0xC2, CHR 0xA0], [CHR 0xE1, CHR 0x9A, CHR 0x80],
      [CHR 0xE2, CHR 0x80, CHR 0x80], [CHR 0xE2, CHR 0x80, CHR 0x81],
      [CHR 0xE2, CHR 0x80, CHR 0x82], [CHR 0xE2, CHR 0x80, CHR 0x83],
      [CHR 0xE2, CHR 0x80, CHR 0x84], [CHR 0xE2, CHR 0x80, CHR 0x85],
      [CHR 0xE2, CHR 0x80, CHR 0x86], [CHR 0xE2, CHR 0x80, CHR 0x87],
      [CHR 0xE2, CHR 0x80, CHR 0x88], [CHR 0xE2, CHR 0x80, CHR 0x89],
      [CHR 0xE2, CHR 0x80, CHR 0x8A], [CHR 0xE2, CHR 0x80, CHR 0xA8],
      [CHR 0xE2, CHR 0x80, CHR 0xA9], [CHR 0xE2, CHR 0x80, CHR 0xAF],
      [CHR 0xE2, CHR 0x81, CHR 0x9F], [CHR 0xE3, CHR 0x80, CHR 0x80],
      [CHR 0xEF, CHR 0xBB, CHR 0xBF]]"

definition endsWith :: "string \<Rightarrow> string \<Rightarrow> bool" where
  "endsWith s p = (length p \<le> length s \<and> drop (length s - length p) s = p)"

definition spaceAtStart :: "string \<Rightarrow> string option" where
  "spaceAtStart s = find (\<lambda>w. startsWith s w) whiteSpaceSeqs"

definition spaceAtEnd :: "string \<Rightarrow> string option" where
  "spaceAtEnd s = find (\<lambda>w. endsWith s w) whiteSpaceSeqs"

function trimStart :: "string \<Rightarrow> string" where
  "trimStart s = (case spaceAtStart s of None \<Rightarrow> s | Some w \<Rightarrow> trimStart (drop (length w) s))"
  by pat_completeness auto
termination
proof (relation "measure length")
  show "wf (measure length)" by simp
next
  fix s w
  assume "spaceAtStart s = Some w"
  then have "w \<in> set whiteSpaceSeqs" and "startsWith s w"
    by (auto simp: spaceAtStart_def find_Some_iff)
  then have "w \<noteq> []" and "take (length w) s = w"
    by (auto simp: whiteSpaceSeqs_def startsWith_def)
  then have "s \<noteq> []" by auto
  with \<open>w \<noteq> []\<close> show "(drop (length w) s, s) \<in> measure length" by simp
qed

function trimEnd :: "string \<Rightarrow> string" where
  "trimEnd s =
     (case spaceAtEnd s of None \<Rightarrow> s | Some w \<Rightarrow> trimEnd (take (length s - length w) s))"
  by pat_completeness auto
termination
proof (relation "measure length")
  show "wf (measure length)" by simp
next
  fix s w
  assume "spaceAtEnd s = Some w"
  then have "w \<in> set whiteSpaceSeqs" and "endsWith s w"
    by (auto simp: spaceAtEnd_def find_Some_iff)
  then have "0 < length w" and "length w \<le> length s"
    by (auto simp: whiteSpaceSeqs_def endsWith_def)
  then have "length s - length w < length s" by arith
  then show "(take (length s - length w) s, s) \<in> measure length" by simp
qed

definition js_trim :: "string \<Rightarrow> string" where
  "js_trim s = trimEnd (trimStart s)"

text \<open>
  \<^verbatim>\<open>s.replace(pat, rep)\<close> with a string pattern replaces its first occurrence (the
  replacement used in the source is the empty string, which holds no \<^verbatim>\<open>$\<close> pattern).
\<close>

fun replaceFirst :: "string \<Rightarrow> string \<Rightarrow> string \<Rightarrow> string" where
  "replaceFirst [] pat rep = (if pat = [] then rep else [])"
| "replaceFirst (c # cs) pat rep =
     (if startsWith (c # cs) pat then rep @ drop (length pat) (c # cs)
      else c # replaceFirst cs pat rep)"

text \<open>
  The flag \<^verbatim>\<open>i\<close> of a regular expression without the flag \<^verbatim>\<open>u\<close> identifies the two
  cases of the ASCII letters with each other, and no other character with an ASCII letter.
\<close>

definition lowerAscii :: "char \<Rightarrow> char" where
  "lowerAscii c = (case map_of (zip upperChars lowerChars) c of None \<Rightarrow> c | Some l \<Rightarrow> l)"

definition startsWithCI :: "string \<Rightarrow> string \<Rightarrow> bool" where
  "startsWithCI s p = (map lowerAscii (take (length p) s) = map lowerAscii p)"

section \<open>The three parsers of the enumeration (lib/enumerate.ts)\<close>

text \<open>
  The scan of macOS. The state of the loop is the list of entries pushed so far with
  \<^verbatim>\<open>currentClass\<close>, \<^verbatim>\<open>currentService\<close> and \<^verbatim>\<open>currentAccount\<close>.

  \<^verbatim>\<open>trimmed.match(/"svce"<blob>="([^"]+)"/)\<close> looks for the leftmost position where the
  text \<^verbatim>\<open>"svce"<blob>="\<close> is followed by at least one character other than a double
  quote and then by a double quote; group 1 is that run of characters, which is never
  empty. \<open>blobValueAt\<close> is the attempt at the start of a string, \<open>searchBlob\<close> the search.
\<close>

definition dq :: char where
  "dq = CHR 0x22"

definition genpClass :: string where
  "genpClass = [dq] @ ''genp'' @ [dq]"

definition svceTag :: string where
  "svceTag = [dq] @ ''svce'' @ [dq]"

definition acctTag :: string where
  "acctTag = [dq] @ ''acct'' @ [dq]"

definition blobValueAt :: "string \<Rightarrow> string \<Rightarrow> string option" where
  "blobValueAt tag s =
     (let lit = tag @ ''<blob>='' @ [dq] in
      if startsWith s lit then
        (let rest = drop (length lit) s;
             v = takeWhile (\<lambda>c. c \<noteq> dq) rest
         in if v \<noteq> [] \<and> length v < length rest then Some v else None)
      else None)"

fun searchBlob :: "string \<Rightarrow> string \<Rightarrow> string option" where
  "searchBlob tag [] = None"
| "searchBlob tag (c # cs) =
     (case blobValueAt tag (c # cs) of Some v \<Rightarrow> Some v | None \<Rightarrow> searchBlob tag cs)"

text \<open>\<^verbatim>\<open>trimmed.split(":")[1]?.trim() || ""\<close>\<close>

definition classOfLine :: "string \<Rightarrow> string" where
  "classOfLine trimmed =
     (case js_split trimmed '':'' of p0 # p1 # ps \<Rightarrow> js_trim p1 | _ \<Rightarrow> [])"

type_synonym mac_state = "SecretEntry list \<times> string \<times> string \<times> string"

fun flushMacOS :: "mac_state \<Rightarrow> SecretEntry list" where
  "flushMacOS (entries, currentClass, currentService, currentAccount) =
     (if currentClass = genpClass \<and> currentService \<noteq> [] \<and> currentAccount \<noteq> []
      then entries @ [\<lparr>service = currentService, key = currentAccount\<rparr>]
      else entries)"

fun stepMacOS :: "mac_state \<Rightarrow> string \<Rightarrow> mac_state" where
  "stepMacOS (entries, currentClass, currentService, currentAccount) line =
     (let trimmed = js_trim line in
      if startsWith trimmed ''class:'' then
        (flushMacOS (entries, currentClass, currentService, currentAccount),
         classOfLine trimmed, [], [])
      else if startsWith trimmed svceTag then
        (case searchBlob svceTag trimmed of
           Some v \<Rightarrow> (entries, currentClass, v, currentAccount)
         | None \<Rightarrow> (entries, currentClass, currentService, currentAccount))
      else if startsWith trimmed acctTag then
        (case searchBlob acctTag trimmed of
           Some v \<Rightarrow> (entries, currentClass, currentService, v)
         | None \<Rightarrow> (entries, currentClass, currentService, currentAccount))
      else (entries, currentClass, currentService, currentAccount))"

definition scanMacOS :: "string list \<Rightarrow> SecretEntry list" where
  "scanMacOS lines = flushMacOS (foldl stepMacOS ([], [], [], []) lines)"

text \<open>
  The result of a shell command is its standard output, or the error thrown by
  \<^verbatim>\<open>.text()\<close>; the \<^verbatim>\<open>catch\<close> of each function keeps the entries pushed so far, and
  the only statement that can throw comes before the first push.
\<close>

definition enumerateMacOS :: "error + string \<Rightarrow> SecretEntry list" where
  "enumerateMacOS out =
     (case out of Inl e \<Rightarrow> [] | Inr result \<Rightarrow> scanMacOS (js_split result [CHR 0x0A]))"

text \<open>The scan of Linux.\<close>

definition serviceAttr :: string where
  "serviceAttr = ''attribute.service = ''"

definition accountAttr :: string where
  "accountAttr = ''attribute.account = ''"

type_synonym linux_state = "SecretEntry list \<times> string \<times> string"

fun flushLinux :: "linux_state \<Rightarrow> SecretEntry list" where
  "flushLinux (entries, currentService, currentAccount) =
     (if currentService \<noteq> [] \<and> currentAccount \<noteq> []
      then entries @ [\<lparr>service = currentService, key = currentAccount\<rparr>]
      else entries)"

fun stepLinux :: "linux_state \<Rightarrow> string \<Rightarrow> linux_state" where
  "stepLinux (entries, currentService, currentAccount) line =
     (let trimmed = js_trim line in
      if startsWith trimmed ''['' then
        (flushLinux (entries, currentService, currentAccount), [], [])
      else if startsWith trimmed serviceAttr then
        (entries, replaceFirst trimmed serviceAttr [], currentAccount)
      else if startsWith trimmed accountAttr then
        (entries, currentService, replaceFirst trimmed accountAttr [])
      else (entries, currentService, currentAccount))"

definition scanLinux :: "string list \<Rightarrow> SecretEntry list" where
  "scanLinux lines = flushLinux (foldl stepLinux ([], [], []) lines)"

definition enumerateLinux :: "error + string \<Rightarrow> SecretEntry list" where
  "enumerateLinux out =
     (case out of Inl e \<Rightarrow> [] | Inr result \<Rightarrow> scanLinux (js_split result [CHR 0x0A]))"

text \<open>
  The scan of Windows. \<^verbatim>\<open>/Target:\s*(?:LegacyGeneric:target=)?([^/]+)\/(.+)/i\<close> is
  searched from the left. At a position where \<^verbatim>\<open>target:\<close> stands (in either case), let
  \<open>seg\<close> be the text up to the first slash after it. Neither the white space nor the
  optional text holds a slash, so group 1 ends at that slash whatever the matcher chooses,
  and group 2 is the run after the slash of characters that are no line terminator
  (\<^verbatim>\<open>\n\<close>, \<^verbatim>\<open>\r\<close>, U+2028, U+2029); the attempt fails when there is no slash, when
  \<open>seg\<close> is empty or when that run is empty. The matcher first takes all the white space and
  the optional text when it is there; it gives the optional text back to group 1 when
  nothing else is left for it, and gives back the last white space character when \<open>seg\<close> is
  white space only.
\<close>

definition legacyPrefix :: string where
  "legacyPrefix = ''LegacyGeneric:target=''"

function spaceRun :: "string \<Rightarrow> string list" where
  "spaceRun s = (case spaceAtStart s of None \<Rightarrow> [] | Some w \<Rightarrow> w # spaceRun (drop (length w) s))"
  by pat_completeness auto
termination
proof (relation "measure length")
  show "wf (measure length)" by simp
next
  fix s w
  assume "spaceAtStart s = Some w"
  then have "w \<in> set whiteSpaceSeqs" and "startsWith s w"
    by (auto simp: spaceAtStart_def find_Some_iff)
  then have "w \<noteq> []" and "take (length w) s = w"
    by (auto simp: whiteSpaceSeqs_def startsWith_def)
  then have "s \<noteq> []" by auto
  with \<open>w \<noteq> []\<close> show "(drop (length w) s, s) \<in> measure length" by simp
qed

fun takeDot :: "string \<Rightarrow> string" where
  "takeDot [] = []"
| "takeDot (c # cs) =
     (if c = CHR 0x0A \<or> c = CHR 0x0D
         \<or> startsWith (c # cs) [CHR 0xE2, CHR 0x80, CHR 0xA8]
         \<or> startsWith (c # cs) [CHR 0xE2, CHR 0x80, CHR 0xA9]
      then []
      else c # takeDot cs)"

definition targetGroup1 :: "string \<Rightarrow> string option" where
  "targetGroup1 seg =
     (let ws = spaceRun seg;
          r = drop (length (concat ws)) seg
      in if startsWithCI r legacyPrefix then
           (if drop (length legacyPrefix) r \<noteq> [] then Some (drop (length legacyPrefix) r)
            else Some r)
         else if r \<noteq> [] then Some r
         else if ws \<noteq> [] then Some (last ws)
         else None)"

definition targetAt :: "string \<Rightarrow> (string \<times> string) option" where
  "targetAt s =
     (if startsWithCI s ''Target:'' then
        (let rest = drop (length ''Target:'') s;
             seg = takeWhile (\<lambda>c. c \<noteq> CHR ''/'') rest;
             after = drop (length seg) rest
         in case after of
              [] \<Rightarrow> None
            | slash # tail \<Rightarrow>
                (let g2 = takeDot tail in
                 if g2 = [] then None
                 else (case targetGroup1 seg of None \<Rightarrow> None | Some g1 \<Rightarrow> Some (g1, g2))))
      else None)"

fun searchTarget :: "string \<Rightarrow> (string \<times> string) option" where
  "searchTarget [] = None"
| "searchTarget (c # cs) =
     (case targetAt (c # cs) of Some m \<Rightarrow> Some m | None \<Rightarrow> searchTarget cs)"

definition stepWindows :: "SecretEntry list \<Rightarrow> string \<Rightarrow> SecretEntry list" where
  "stepWindows entries line =
     (let trimmed = js_trim line in
      if startsWith trimmed ''Target:'' then
        (case searchTarget trimmed of
           Some (g1, g2) \<Rightarrow> entries @ [\<lparr>service = g1, key = g2\<rparr>]
         | None \<Rightarrow> entries)
      else entries)"

definition scanWindows :: "string list \<Rightarrow> SecretEntry list" where
  "scanWindows lines = foldl stepWindows [] lines"

definition enumerateWindows :: "error + string \<Rightarrow> SecretEntry list" where
  "enumerateWindows out =
     (case out of Inl e \<Rightarrow> [] | Inr result \<Rightarrow> scanWindows (js_split result [CHR 0x0A]))"

text \<open>
  \<^verbatim>\<open>enumerateSecrets()\<close>, given \<^verbatim>\<open>process.platform\<close> and the result of the listing
  command of that platform.
\<close>

definition enumerateSecrets :: "string \<Rightarrow> error + string \<Rightarrow> error + SecretEntry list" where
  "enumerateSecrets platform out =
     (if platform = ''darwin'' then Inr (enumerateMacOS out)
      else if platform = ''linux'' then Inr (enumerateLinux out)
      else if platform = ''win32'' then Inr (enumerateWindows out)
      else Inl (UnsupportedPlatform platform))"

declare trimStart.simps [simp del] trimEnd.simps [simp del] spaceRun.simps [simp del]

text \<open>
  Vocabulary of the statements on the parsers. A line is a record boundary when the scan
  flushes and resets on it; \<open>serviceOf\<close> and \<open>accountOf\<close> give the value a line assigns
  to the candidate service or account, if it assigns one; \<open>entryOfWindows\<close> gives the
  entry a line of the Windows listing pushes, if it pushes one. \<open>lastOr d vs\<close> is the last
  of the values \<open>vs\<close>, or \<open>d\<close> when there is none.
\<close>

definition lastOr :: "string \<Rightarrow> string list \<Rightarrow> string" where
  "lastOr d vs = (if vs = [] then d else last vs)"

definition boundaryMacOS :: "string \<Rightarrow> bool" where
  "boundaryMacOS line = startsWith (js_trim line) ''class:''"

definition genpHeader :: "string \<Rightarrow> bool" where
  "genpHeader line = (boundaryMacOS line \<and> classOfLine (js_trim line) = genpClass)"

definition serviceOfMacOS :: "string \<Rightarrow> string option" where
  "serviceOfMacOS line =
     (let trimmed = js_trim line in
      if \<not> startsWith trimmed ''class:'' \<and> startsWith trimmed svceTag
      then searchBlob svceTag trimmed else None)"

definition accountOfMacOS :: "string \<Rightarrow> string option" where
  "accountOfMacOS line =
     (let trimmed = js_trim line in
      if \<not> startsWith trimmed ''class:'' \<and> \<not> startsWith trimmed svceTag
         \<and> startsWith trimmed acctTag
      then searchBlob acctTag trimmed else None)"

definition boundaryLinux :: "string \<Rightarrow> bool" where
  "boundaryLinux line = startsWith (js_trim line) ''[''"

definition serviceOfLinux :: "string \<Rightarrow> string option" where
  "serviceOfLinux line =
     (let trimmed = js_trim line in
      if \<not> startsWith trimmed ''['' \<and> startsWith trimmed serviceAttr
      then Some (replaceFirst trimmed serviceAttr []) else None)"

definition accountOfLinux :: "string \<Rightarrow> string option" where
  "accountOfLinux line =
     (let trimmed = js_trim line in
      if \<not> startsWith trimmed ''['' \<and> \<not> startsWith trimmed serviceAttr
         \<and> startsWith trimmed accountAttr
      then Some (replaceFirst trimmed accountAttr []) else None)"

definition entryOfWindows :: "string \<Rightarrow> SecretEntry option" where
  "entryOfWindows line =
     (let trimmed = js_trim line in
      if startsWith trimmed ''Target:'' then
        (case searchTarget trimmed of
           Some (g1, g2) \<Rightarrow> Some \<lparr>service = g1, key = g2\<rparr>
         | None \<Rightarrow> None)
      else None)"

definition nl :: string where
  "nl = [CHR 0x0A]"

text \<open>
  Sample listings. The Linux listing holds two complete records; the macOS listing one
  generic-password record; the Windows listing one credential whose line ends with a
  carriage return. None ends with a record boundary, nor with a line break.
\<close>

definition linuxListing :: string where
  "linuxListing =
     ''[/1]'' @ nl @ ''attribute.service = app'' @ nl @ ''attribute.account = A'' @ nl @
     ''[/2]'' @ nl @ ''  attribute.service = my-app'' @ nl @ ''attribute.account = API_KEY''"

definition macListing :: string where
  "macListing =
     ''keychain: login'' @ nl @ ''class: '' @ genpClass @ nl @ ''attributes:'' @ nl @
     ''    '' @ acctTag @ ''<blob>='' @ [dq] @ ''API_KEY'' @ [dq] @ nl @
     ''    '' @ svceTag @ ''<blob>='' @ [dq] @ ''my-app'' @ [dq]"

definition windowsListing :: string where
  "windowsListing =
     ''Currently stored credentials:'' @ nl @
     ''    Target: LegacyGeneric:target=my-app/API_KEY'' @ [CHR 0x0D] @ nl @
     ''    Type: Generic'' @ nl @ ''    User: me''"

text \<open>
  Listings with a record that yields no entry before a complete one: a Linux record
  with no account, a macOS record of another class, a Windows target with no slash.
\<close>

definition linuxPartial :: string where
  "linuxPartial =
     ''[/1]'' @ nl @ ''attribute.service = app'' @ nl @
     ''[/2]'' @ nl @ ''attribute.service = my-app'' @ nl @ ''attribute.account = API_KEY''"

definition macPartial :: string where
  "macPartial =
     ''class: '' @ [dq] @ ''inet'' @ [dq] @ nl @
     svceTag @ ''<blob>='' @ [dq] @ ''web'' @ [dq] @ nl @
     acctTag @ ''<blob>='' @ [dq] @ ''me'' @ [dq] @ nl @
     ''class: '' @ genpClass @ nl @
     svceTag @ ''<blob>='' @ [dq] @ ''my-app'' @ [dq] @ nl @
     acctTag @ ''<blob>='' @ [dq] @ ''API_KEY'' @ [dq]"

definition windowsPartial :: string where
  "windowsPartial = ''Target: Domain:target=host'' @ nl @ ''Target: my-app/API_KEY''"

text \<open>Listings with no record of this tool: a macOS record of another class, no Windows credential.\<close>

definition macForeign :: string where
  "macForeign =
     ''class: '' @ [dq] @ ''inet'' @ [dq] @ nl @
     svceTag @ ''<blob>='' @ [dq] @ ''web'' @ [dq] @ nl @
     acctTag @ ''<blob>='' @ [dq] @ ''me'' @ [dq]"

definition windowsNone :: string where
  "windowsNone = ''Currently stored credentials:'' @ nl @ ''* NONE *''"

section \<open>Properties of the namespace codec\<close>

lemma splitFrom_nonempty: "splitFrom sep cur s \<noteq> []"
  by (induction sep cur s rule: splitFrom.induct) auto

lemma joinSep_Cons: "ps \<noteq> [] \<Longrightarrow> joinSep sep (p # ps) = p @ sep @ joinSep sep ps"
  by (cases ps) auto

lemma startsWith_append_drop: "startsWith s p \<Longrightarrow> p @ drop (length p) s = s"
  by (metis append_take_drop_id startsWith_def)

lemma joinSep_splitFrom: "joinSep sep (splitFrom sep cur s) = cur @ s"
proof (induction sep cur s rule: splitFrom.induct)
  case (1 sep cur)
  show ?case by simp
next
  case (2 sep cur c cs)
  show ?case
  proof (cases "sep \<noteq> [] \<and> startsWith (c # cs) sep")
    case True
    then have "joinSep sep (splitFrom sep cur (c # cs)) =
        cur @ sep @ joinSep sep (splitFrom sep [] (drop (length sep) (c # cs)))"
      by (simp add: joinSep_Cons splitFrom_nonempty)
    also have "\<dots> = cur @ sep @ drop (length sep) (c # cs)"
      using 2(1) True by simp
    also have "\<dots> = cur @ c # cs"
      using True startsWith_append_drop by simp
    finally show ?thesis .
  next
    case False
    then show ?thesis using 2(2) by auto
  qed
qed

lemma js_split_join: "sep \<noteq> [] \<Longrightarrow> joinSep sep (js_split s sep) = s"
  by (simp add: js_split_def joinSep_splitFrom)

lemma splitFrom_no_sep:
  "CHR '':'' \<notin> set e \<Longrightarrow> splitFrom ''::'' cur e = [cur @ e]"
  by (induction e arbitrary: cur) (auto simp: startsWith_def)

lemma splitFrom_first_sep:
  "CHR '':'' \<notin> set s \<Longrightarrow> splitFrom ''::'' cur (s @ ''::'' @ rest) = (cur @ s) # splitFrom ''::'' [] rest"
  by (induction s arbitrary: cur) (auto simp: startsWith_def)

lemma serviceChar_not_colon: "serviceChar c \<Longrightarrow> c \<noteq> CHR '':''"
  by (auto simp: serviceChar_def lowerChars_def upperChars_def digitChars_def)

lemma envChar_not_colon: "envChar c \<Longrightarrow> c \<noteq> CHR '':''"
  by (auto simp: envChar_def lowerChars_def upperChars_def digitChars_def)

lemma SERVICE_PATTERN_no_colon: "SERVICE_PATTERN s \<Longrightarrow> CHR '':'' \<notin> set s"
  using serviceChar_not_colon by (auto simp: SERVICE_PATTERN_def list_all_iff)

lemma ENV_PATTERN_no_colon: "ENV_PATTERN s \<Longrightarrow> CHR '':'' \<notin> set s"
  using envChar_not_colon by (auto simp: ENV_PATTERN_def list_all_iff)

lemma validateService_accepts:
  "validateService s = Inr () \<longleftrightarrow> s = ''_'' \<or> SERVICE_PATTERN s"
  by (auto simp: validateService_def DEFAULT_SERVICE_def)

lemma validateService_ok_shape:
  assumes "validateService s = Inr ()"
  shows "s \<noteq> [] \<and> CHR '':'' \<notin> set s"
proof -
  from assms consider "s = ''_''" | "SERVICE_PATTERN s"
    by (auto simp: validateService_accepts)
  then show ?thesis
  proof cases
    case 1 then show ?thesis by simp
  next
    case 2 then show ?thesis
      using SERVICE_PATTERN_no_colon by (auto simp: SERVICE_PATTERN_def)
  qed
qed

lemma validateEnv_ok_shape:
  assumes "validateEnv e = Inr ()"
  shows "e \<noteq> [] \<and> CHR '':'' \<notin> set e"
proof -
  from assms have "ENV_PATTERN e"
    by (auto simp: validateEnv_def split: if_splits)
  then show ?thesis
    using ENV_PATTERN_no_colon by (auto simp: ENV_PATTERN_def)
qed

lemma parse_of_built:
  assumes "s \<noteq> []" "CHR '':'' \<notin> set s" "e \<noteq> []" "CHR '':'' \<notin> set e"
  shows "parseServiceName (s @ ''::'' @ e) = (s, Some e)"
proof -
  have "js_split (s @ ''::'' @ e) ''::'' = [s, e]"
    using assms splitFrom_first_sep[of s "[]" e] splitFrom_no_sep[of e "[]"]
    by (simp add: js_split_def)
  then show ?thesis using assms by (simp add: parseServiceName_def)
qed

text \<open>
  Claim C3 (namespace codec round trip). For every service accepted by
  \<open>validateService\<close> and every environment accepted by \<open>validateEnv\<close>,
  \<open>buildServiceName\<close> succeeds with \<open>service::environment\<close> and \<open>parseServiceName\<close>
  of that namespace returns exactly the service and the environment. A string that
  contains \<^verbatim>\<open>::\<close> is rejected by both validators, so it never reaches the round trip.
\<close>

theorem namespace_roundtrip:
  "(validateService s = Inr () \<and> validateEnv e = Inr () \<longrightarrow>
      buildServiceName (Some s) (Some e) = Inr (s @ ''::'' @ e) \<and>
      parseServiceName (s @ ''::'' @ e) = (s, Some e))
   \<and> validateService (u @ ''::'' @ v) = Inl (InvalidServiceName (u @ ''::'' @ v))
   \<and> validateEnv (u @ ''::'' @ v) = Inl (InvalidEnvName (u @ ''::'' @ v))"
proof (intro conjI impI)
  assume ok: "validateService s = Inr () \<and> validateEnv e = Inr ()"
  then have sh: "s \<noteq> []" "CHR '':'' \<notin> set s" "e \<noteq> []" "CHR '':'' \<notin> set e"
    using validateService_ok_shape validateEnv_ok_shape by auto
  show "buildServiceName (Some s) (Some e) = Inr (s @ ''::'' @ e)"
    using ok sh by (simp add: buildServiceName_def truthy_def orElse_def)
  show "parseServiceName (s @ ''::'' @ e) = (s, Some e)"
    using sh by (rule parse_of_built)
next
  have "\<not> SERVICE_PATTERN (u @ ''::'' @ v)"
    using SERVICE_PATTERN_no_colon[of "u @ ''::'' @ v"] by auto
  then show "validateService (u @ ''::'' @ v) = Inl (InvalidServiceName (u @ ''::'' @ v))"
    by (simp add: validateService_def DEFAULT_SERVICE_def)
next
  have "\<not> ENV_PATTERN (u @ ''::'' @ v)"
    using ENV_PATTERN_no_colon[of "u @ ''::'' @ v"] by auto
  then show "validateEnv (u @ ''::'' @ v) = Inl (InvalidEnvName (u @ ''::'' @ v))"
    by (simp add: validateEnv_def)
qed

theorem namespace_roundtrip_witness:
  "validateService ''my-app'' = Inr () \<and> validateEnv ''dev'' = Inr () \<and>
   buildServiceName (Some ''my-app'') (Some ''dev'') = Inr ''my-app::dev'' \<and>
   parseServiceName ''my-app::dev'' = (''my-app'', Some ''dev'')"
proof -
  have h1: "validateService ''my-app'' = Inr ()"
    by (simp add: validateService_def SERVICE_PATTERN_def serviceChar_def lowerChars_def
        upperChars_def digitChars_def DEFAULT_SERVICE_def)
  have h2: "validateEnv ''dev'' = Inr ()"
    by (simp add: validateEnv_def ENV_PATTERN_def envChar_def lowerChars_def
        upperChars_def digitChars_def)
  from namespace_roundtrip[of "''my-app''" "''dev''" "[]" "[]"] h1 h2 show ?thesis
    by simp
qed

text \<open>
  Claim C5 (conservative parsing). When splitting the input on \<^verbatim>\<open>::\<close> yields exactly
  two non-empty parts, \<open>parseServiceName\<close> returns them as service and environment, and
  they are the two sides of the separator in the input. For every other outcome of the
  split (no separator, an empty part, more than two parts) it returns the whole input
  as the service, with no environment; in particular \<^verbatim>\<open>a::b::c\<close> is not decomposed.
\<close>

theorem parseServiceName_conservative:
  "(js_split n ''::'' = [a, b] \<and> a \<noteq> [] \<and> b \<noteq> [] \<longrightarrow>
      parseServiceName n = (a, Some b) \<and> n = a @ ''::'' @ b)
   \<and> ((\<nexists>p q. js_split n ''::'' = [p, q] \<and> p \<noteq> [] \<and> q \<noteq> []) \<longrightarrow>
      parseServiceName n = (n, None))
   \<and> parseServiceName ''a::b::c'' = (''a::b::c'', None)"
proof (intro conjI impI)
  assume h: "js_split n ''::'' = [a, b] \<and> a \<noteq> [] \<and> b \<noteq> []"
  then show "parseServiceName n = (a, Some b)"
    by (simp add: parseServiceName_def)
  have "joinSep ''::'' (js_split n ''::'') = n"
    by (rule js_split_join) simp
  with h show "n = a @ ''::'' @ b" by simp
next
  assume h: "\<nexists>p q. js_split n ''::'' = [p, q] \<and> p \<noteq> [] \<and> q \<noteq> []"
  then show "parseServiceName n = (n, None)"
    by (auto simp: parseServiceName_def split: list.splits)
next
  show "parseServiceName ''a::b::c'' = (''a::b::c'', None)"
    by (simp add: parseServiceName_def js_split_def startsWith_def)
qed

theorem parseServiceName_conservative_witness:
  "parseServiceName ''app::dev'' = (''app'', Some ''dev'') \<and>
   parseServiceName ''app'' = (''app'', None) \<and>
   parseServiceName ''::dev'' = (''::dev'', None) \<and>
   parseServiceName ''app::'' = (''app::'', None) \<and>
   parseServiceName ''a::b::c'' = (''a::b::c'', None)"
proof -
  have s1: "js_split ''app::dev'' ''::'' = [''app'', ''dev'']"
    by (simp add: js_split_def startsWith_def)
  have s2: "js_split ''app'' ''::'' = [''app'']"
    by (simp add: js_split_def startsWith_def)
  have s3: "js_split ''::dev'' ''::'' = ['''', ''dev'']"
    by (simp add: js_split_def startsWith_def)
  have s4: "js_split ''app::'' ''::'' = [''app'', '''']"
    by (simp add: js_split_def startsWith_def)
  from parseServiceName_conservative[of "''app::dev''" "''app''" "''dev''"] s1
  have r1: "parseServiceName ''app::dev'' = (''app'', Some ''dev'')" by simp
  from parseServiceName_conservative[of "''app''"] s2
  have r2: "parseServiceName ''app'' = (''app'', None)" by simp
  from parseServiceName_conservative[of "''::dev''"] s3
  have r3: "parseServiceName ''::dev'' = (''::dev'', None)" by simp
  from parseServiceName_conservative[of "''app::''"] s4
  have r4: "parseServiceName ''app::'' = (''app::'', None)" by simp
  from parseServiceName_conservative[of "''a::b::c''"]
  have r5: "parseServiceName ''a::b::c'' = (''a::b::c'', None)" by simp
  from r1 r2 r3 r4 r5 show ?thesis by simp
qed

text \<open>
  Claim C10 (empty-string service). With an empty-string service and no environment
  \<open>buildServiceName\<close> returns the sentinel \<^verbatim>\<open>_\<close>; with an empty-string service and
  a (non-empty) environment it fails with the environment-requires-service error. Neither
  call reports the invalid-service error that validating the empty string would give.
\<close>

theorem empty_service_at_codec:
  "buildServiceName (Some []) None = Inr ''_''
   \<and> buildServiceName (Some []) (Some (c # cs)) = Inl EnvRequiresService
   \<and> validateService [] = Inl (InvalidServiceName [])"
  by (simp add: buildServiceName_def truthy_def orElse_def validateService_def
      DEFAULT_SERVICE_def SERVICE_PATTERN_def)

text \<open>
  Claim C4 (the sentinel never carries an environment), evaluated on the code: given the
  service \<^verbatim>\<open>_\<close> and the environment \<^verbatim>\<open>dev\<close>, \<open>buildServiceName\<close> returns the
  namespace \<^verbatim>\<open>_::dev\<close>, and \<open>filterShhEnvEntries\<close> retains an entry stored under it.
\<close>

theorem sentinel_with_environment_is_built_and_kept:
  "buildServiceName (Some ''_'') (Some ''dev'') = Inr ''_::dev''
   \<and> filterShhEnvEntries [\<lparr>service = ''_::dev'', key = ''KEY''\<rparr>]
       = [\<lparr>service = ''_::dev'', key = ''KEY''\<rparr>]"
  by (simp add: buildServiceName_def truthy_def orElse_def validateService_def validateEnv_def
      DEFAULT_SERVICE_def SERVICE_PATTERN_def ENV_PATTERN_def KEY_PATTERN_def
      filterShhEnvEntries_def servicePattern_def serviceChar_def envChar_def keyHeadChar_def
      keyTailChar_def lowerChars_def upperChars_def digitChars_def)

section \<open>Properties of the flat merge\<close>

lemma getSecretsLoop_ok:
  "keysOk st svc keys \<Longrightarrow>
   getSecretsLoop st svc keys result =
     (map (Pair svc) keys,
      Inr (result ++ (\<lambda>k. if k \<in> set keys \<and> k \<noteq> ''__proto__'' then fetched st svc k else None)))"
proof (induction keys arbitrary: result)
  case Nil
  then show ?case by simp
next
  case (Cons a keys)
  from Cons.prems obtain v where v: "st svc a = Inr v" and rest: "keysOk st svc keys"
    by (auto simp: keysOk_def split: sum.splits)
  have "(case v of None \<Rightarrow> result | Some w \<Rightarrow> objSet result a w)
          ++ (\<lambda>k. if k \<in> set keys \<and> k \<noteq> ''__proto__'' then fetched st svc k else None)
      = result ++ (\<lambda>k. if k \<in> set (a # keys) \<and> k \<noteq> ''__proto__'' then fetched st svc k else None)"
    using v by (auto simp: map_add_def fetched_def objSet_def fun_eq_iff split: option.splits)
  then show ?case using v Cons.IH[OF rest] by simp
qed

lemma getSecretsForService_ok:
  "keysOk st svc keys \<Longrightarrow>
   getSecretsForService st svc keys =
     (map (Pair svc) keys,
      Inr (\<lambda>k. if k \<in> set keys \<and> k \<noteq> ''__proto__'' then fetched st svc k else None))"
  by (simp add: getSecretsForService_def getSecretsLoop_ok)

lemma layerValues_empty: "groupsGet g layer = [] \<Longrightarrow> layerValues st g layer = Map.empty"
  by (simp add: layerValues_def)

lemma mergeLoop_ok:
  "storeAnswers st g layers \<Longrightarrow>
   mergeLoop st g layers merged =
     (concat (map (\<lambda>layer. map (Pair layer) (groupsGet g layer)) layers),
      Inr (foldl (++) merged (map (layerValues st g) layers)))"
proof (induction layers arbitrary: merged)
  case Nil
  then show ?case by simp
next
  case (Cons layer layers)
  from Cons.prems have k: "keysOk st layer (groupsGet g layer)" and rest: "storeAnswers st g layers"
    by (auto simp: storeAnswers_def)
  show ?case
  proof (cases "groupsGet g layer = []")
    case True
    then show ?thesis using Cons.IH[OF rest] by (simp add: layerValues_empty)
  next
    case False
    have lv: "(\<lambda>k. if k \<in> set (groupsGet g layer) \<and> k \<noteq> ''__proto__'' then fetched st layer k
                   else None) = layerValues st g layer"
      by (simp add: layerValues_def)
    show ?thesis using False Cons.IH[OF rest] getSecretsForService_ok[OF k]
      by (simp add: lv)
  qed
qed

lemma foldl_map_add_none:
  "\<forall>f\<in>set ms. f k = None \<Longrightarrow> (foldl (++) m ms) k = m k"
  by (induction ms arbitrary: m) (auto simp: map_add_def)

lemma foldl_map_add_cong:
  "a k = b k \<Longrightarrow> (foldl (++) a post) k = (foldl (++) b post) k"
proof (induction post arbitrary: a b)
  case Nil
  then show ?case by simp
next
  case (Cons h post)
  have "(a ++ h) k = (b ++ h) k" using Cons.prems by (cases "h k") (simp_all add: map_add_def)
  then have "(foldl (++) (a ++ h) post) k = (foldl (++) (b ++ h) post) k"
    by (rule Cons.IH[of "a ++ h" "b ++ h"])
  then show ?case by simp
qed

lemma foldl_map_add_last:
  assumes "f k = Some v" "\<forall>h\<in>set post. h k = None"
  shows "(foldl (++) m (pre @ [f] @ post)) k = Some v"
proof -
  have e1: "foldl (++) m (pre @ [f] @ post) = foldl (++) (foldl (++) m pre ++ f) post"
    by (simp only: foldl_append foldl_Cons foldl_Nil)
  have e2: "(foldl (++) (foldl (++) m pre ++ f) post) k = (foldl (++) m pre ++ f) k"
    by (rule foldl_map_add_none[of post k "foldl (++) m pre ++ f", OF assms(2)])
  have e3: "(foldl (++) m pre ++ f) k = Some v"
    using assms(1) by (simp add: map_add_def)
  show ?thesis using e2 e3 unfolding e1 by (rule trans)
qed

lemma foldl_map_add_skip:
  assumes "f k = None"
  shows "(foldl (++) m (pre @ [f] @ post)) k = (foldl (++) m (pre @ post)) k"
proof -
  have e1: "foldl (++) m (pre @ [f] @ post) = foldl (++) (foldl (++) m pre ++ f) post"
    by (simp only: foldl_append foldl_Cons foldl_Nil)
  have e2: "foldl (++) m (pre @ post) = foldl (++) (foldl (++) m pre) post"
    by (simp only: foldl_append)
  have e3: "(foldl (++) m pre ++ f) k = (foldl (++) m pre) k"
    using assms by (simp add: map_add_def)
  have e4: "(foldl (++) (foldl (++) m pre ++ f) post) k = (foldl (++) (foldl (++) m pre) post) k"
    by (rule foldl_map_add_cong[of "foldl (++) m pre ++ f" k "foldl (++) m pre" post, OF e3])
  show ?thesis using e4 unfolding e1 e2 .
qed

lemma layerValues_Some_iff:
  "layerValues st g L k = Some v \<longleftrightarrow>
     k \<in> set (groupsGet g L) \<and> k \<noteq> ''__proto__'' \<and> fetched st L k = Some v"
  by (simp add: layerValues_def)

lemma fetched_Some_iff: "fetched st L k = Some v \<longleftrightarrow> st L k = Inr (Some v)"
  by (auto simp: fetched_def split: sum.splits)

lemma layerValues_defines:
  "layerValues st g L k = Some v \<longleftrightarrow> layerDefines st g L k v \<and> k \<noteq> ''__proto__''"
  by (auto simp: layerValues_Some_iff fetched_Some_iff layerDefines_def)


lemma mergeLoop_drop_absent:
  "groupsGet g L = [] \<Longrightarrow> mergeLoop st g (pre @ [L] @ post) m = mergeLoop st g (pre @ post) m"
  by (induction pre arbitrary: m) (auto simp: Let_def split: prod.splits sum.splits)

lemma groupsGet_absent: "map_of g L = None \<Longrightarrow> groupsGet g L = []"
  by (simp add: groupsGet_def)

lemma KEY_PATTERN_not_proto: "KEY_PATTERN k \<Longrightarrow> k \<noteq> ''__proto__''"
  by (auto simp: KEY_PATTERN_def keyHeadChar_def upperChars_def)

text \<open>
  Claim C1 (flat merge for injection). For every group map and every request, when the
  store answers the calls for the keys listed under the resolved layers
  \<^verbatim>\<open>["_", service?, "service::env"?]\<close>, the merge returns a map in which a key that no
  layer defines is unset, and a key has the value given by the last layer of the sequence
  that defines it (that lists it and holds a value for it). The one name a plain object
  does not store, \<^verbatim>\<open>__proto__\<close>, is set apart: no key of the grammar is that name
  (\<open>KEY_PATTERN_not_proto\<close>), so the statement covers every key of every group map the
  command builds (\<open>validKeys_of_filtered\<close>). A layer absent from the group
  map can be dropped from the sequence without changing the calls, the result or the
  error, whatever the store does. The witness is the example of the specification: with
  \<^verbatim>\<open>X\<close> defined as 1, 2 and 3 by \<^verbatim>\<open>_\<close>, \<^verbatim>\<open>app\<close> and \<^verbatim>\<open>app::dev\<close>, the
  merge yields \<^verbatim>\<open>X=3\<close>.
\<close>

theorem flat_merge_last_layer_wins:
  "(storeAnswers st g (runLayers serviceArg envArg) \<longrightarrow>
      (\<exists>calls merged.
         mergeGroups st g serviceArg envArg = (calls, Inr merged) \<and>
         (\<forall>k. (\<forall>L\<in>set (runLayers serviceArg envArg). \<forall>v. \<not> layerDefines st g L k v)
                \<longrightarrow> merged k = None) \<and>
         (\<forall>pre L post k v.
            runLayers serviceArg envArg = pre @ [L] @ post \<and> layerDefines st g L k v \<and>
            k \<noteq> ''__proto__'' \<and>
            (\<forall>L'\<in>set post. \<forall>v'. \<not> layerDefines st g L' k v')
            \<longrightarrow> merged k = Some v)))
   \<and> (\<forall>pre L post m.
         map_of g L = None \<longrightarrow>
         mergeLoop st g (pre @ [L] @ post) m = mergeLoop st g (pre @ post) m)"
proof (intro conjI impI allI)
  assume ok: "storeAnswers st g (runLayers serviceArg envArg)"
  define layers where "layers = runLayers serviceArg envArg"
  define merged where "merged = foldl (++) Map.empty (map (layerValues st g) layers)"
  have run: "mergeGroups st g serviceArg envArg =
      (concat (map (\<lambda>layer. map (Pair layer) (groupsGet g layer)) layers), Inr merged)"
    using ok mergeLoop_ok[of st g layers Map.empty]
    by (simp add: mergeGroups_def layers_def merged_def)
  have none: "merged k = None" if h: "\<forall>L\<in>set layers. \<forall>v. \<not> layerDefines st g L k v" for k
  proof -
    have "\<forall>f\<in>set (map (layerValues st g) layers). f k = None"
    proof
      fix f assume "f \<in> set (map (layerValues st g) layers)"
      then obtain L where L: "L \<in> set layers" "f = layerValues st g L" by auto
      show "f k = None"
      proof (cases "f k")
        case None then show ?thesis .
      next
        case (Some v)
        then have "layerDefines st g L k v" using L(2) by (simp add: layerValues_defines)
        then show ?thesis using h L(1) by blast
      qed
    qed
    then have "merged k = Map.empty k"
      unfolding merged_def
      using foldl_map_add_none[of "map (layerValues st g) layers" k Map.empty] by simp
    then show ?thesis by simp
  qed
  have last: "merged k = Some v"
    if h: "layers = pre @ [L] @ post" "layerDefines st g L k v"
       "\<forall>L'\<in>set post. \<forall>v'. \<not> layerDefines st g L' k v'" "k \<noteq> ''__proto__''"
    for pre L post k v
  proof -
    have f: "layerValues st g L k = Some v" using h(2,4) by (simp add: layerValues_defines)
    have p: "\<forall>f\<in>set (map (layerValues st g) post). f k = None"
    proof
      fix f assume "f \<in> set (map (layerValues st g) post)"
      then obtain L' where L': "L' \<in> set post" "f = layerValues st g L'" by auto
      show "f k = None"
      proof (cases "f k")
        case None then show ?thesis .
      next
        case (Some v')
        then have "layerDefines st g L' k v'" using L'(2) by (simp add: layerValues_defines)
        then show ?thesis using h(3) L'(1) by blast
      qed
    qed
    have "map (layerValues st g) layers =
        map (layerValues st g) pre @ [layerValues st g L] @ map (layerValues st g) post"
      by (simp add: h(1))
    then show ?thesis
      unfolding merged_def
      using foldl_map_add_last[of "layerValues st g L" k v "map (layerValues st g) post"
          Map.empty "map (layerValues st g) pre", OF f p]
      by simp
  qed
  show "\<exists>calls merged.
         mergeGroups st g serviceArg envArg = (calls, Inr merged) \<and>
         (\<forall>k. (\<forall>L\<in>set (runLayers serviceArg envArg). \<forall>v. \<not> layerDefines st g L k v)
                \<longrightarrow> merged k = None) \<and>
         (\<forall>pre L post k v.
            runLayers serviceArg envArg = pre @ [L] @ post \<and> layerDefines st g L k v \<and>
            k \<noteq> ''__proto__'' \<and>
            (\<forall>L'\<in>set post. \<forall>v'. \<not> layerDefines st g L' k v')
            \<longrightarrow> merged k = Some v)"
    using run none last unfolding layers_def by blast
next
  fix pre L post m
  assume "map_of g L = None"
  then have "groupsGet g L = []" by (rule groupsGet_absent)
  then show "mergeLoop st g (pre @ [L] @ post) m = mergeLoop st g (pre @ post) m"
    by (rule mergeLoop_drop_absent)
qed


theorem flat_merge_last_layer_wins_witness:
  "storeAnswers exampleStore exampleGroups (runLayers (Some ''app'') (Some ''dev'')) \<and>
   (\<exists>calls merged.
      mergeGroups exampleStore exampleGroups (Some ''app'') (Some ''dev'') = (calls, Inr merged) \<and>
      merged ''X'' = Some ''3'' \<and> merged ''Y'' = None) \<and>
   mergeLoop exampleStore [(''_'', [''X''])] [''_'', ''app'', ''app::dev''] Map.empty =
     mergeLoop exampleStore [(''_'', [''X''])] [''_'', ''app::dev''] Map.empty"
proof -
  note inst = flat_merge_last_layer_wins[of exampleStore exampleGroups "Some ''app''" "Some ''dev''"]
  have layers: "runLayers (Some ''app'') (Some ''dev'') = [''_'', ''app'', ''app::dev'']"
    by (simp add: runLayers_def truthy_def)
  have ok: "storeAnswers exampleStore exampleGroups (runLayers (Some ''app'') (Some ''dev''))"
    by (simp add: layers storeAnswers_def keysOk_def groupsGet_def exampleGroups_def exampleStore_def)
  from inst ok obtain calls merged where
    run: "mergeGroups exampleStore exampleGroups (Some ''app'') (Some ''dev'') = (calls, Inr merged)"
    and none: "\<forall>k. (\<forall>L\<in>set (runLayers (Some ''app'') (Some ''dev'')).
                  \<forall>v. \<not> layerDefines exampleStore exampleGroups L k v) \<longrightarrow> merged k = None"
    and last: "\<forall>pre L post k v.
            runLayers (Some ''app'') (Some ''dev'') = pre @ [L] @ post \<and>
            layerDefines exampleStore exampleGroups L k v \<and>
            k \<noteq> ''__proto__'' \<and>
            (\<forall>L'\<in>set post. \<forall>v'. \<not> layerDefines exampleStore exampleGroups L' k v')
            \<longrightarrow> merged k = Some v"
    by blast
  have d: "layerDefines exampleStore exampleGroups ''app::dev'' ''X'' ''3''"
    by (simp add: layerDefines_def groupsGet_def exampleGroups_def exampleStore_def)
  have x: "merged ''X'' = Some ''3''"
    using last[rule_format, of "[''_'', ''app'']" "''app::dev''" "[]" "''X''" "''3''"] d layers
    by simp
  have "\<forall>L\<in>set (runLayers (Some ''app'') (Some ''dev'')).
          \<forall>v. \<not> layerDefines exampleStore exampleGroups L ''Y'' v"
    by (simp add: layers layerDefines_def groupsGet_def exampleGroups_def)
  then have y: "merged ''Y'' = None" using none by blast
  have "map_of [(''_'', [''X''])] ''app'' = None" by simp
  with flat_merge_last_layer_wins[of exampleStore "[(''_'', [''X''])]" None None]
  have "mergeLoop exampleStore [(''_'', [''X''])] ([''_''] @ [''app''] @ [''app::dev'']) Map.empty =
     mergeLoop exampleStore [(''_'', [''X''])] ([''_''] @ [''app::dev'']) Map.empty"
    by blast
  then have a: "mergeLoop exampleStore [(''_'', [''X''])] [''_'', ''app'', ''app::dev''] Map.empty =
     mergeLoop exampleStore [(''_'', [''X''])] [''_'', ''app::dev''] Map.empty"
    by simp
  from ok run x y a show ?thesis by blast
qed


text \<open>
  Claim C9 (absent store values never erase lower layers), as stated, at a key list the
  function can be given: the store holds a value for the requested key \<^verbatim>\<open>__proto__\<close>,
  and the object returned has no property, so its domain is not the set of the requested
  keys with a present value.
\<close>

theorem proto_key_is_not_returned:
  "protoStore ''app'' ''__proto__'' = Inr (Some ''x'')
   \<and> getSecretsForService protoStore ''app'' [''__proto__'']
       = ([(''app'', ''__proto__'')], Inr Map.empty)
   \<and> dom (Map.empty :: string \<rightharpoonup> string)
       \<noteq> {k \<in> set [''__proto__'']. \<exists>v. protoStore ''app'' k = Inr (Some v)}"
proof (intro conjI)
  show "protoStore ''app'' ''__proto__'' = Inr (Some ''x'')"
    by (simp add: protoStore_def)
  show "getSecretsForService protoStore ''app'' [''__proto__'']
       = ([(''app'', ''__proto__'')], Inr Map.empty)"
    by (simp add: getSecretsForService_def protoStore_def objSet_def)
  have "''__proto__'' \<in> {k \<in> set [''__proto__'']. \<exists>v. protoStore ''app'' k = Inr (Some v)}"
    by (simp add: protoStore_def)
  then show "dom (Map.empty :: string \<rightharpoonup> string)
       \<noteq> {k \<in> set [''__proto__'']. \<exists>v. protoStore ''app'' k = Inr (Some v)}"
    by auto
qed

text \<open>
  Claim C9, amended. \<open>getSecretsForService\<close> makes no store call for an empty key
  list; when the store answers the calls, it calls the store once per requested key and
  returns a map whose domain is exactly the requested keys other than \<^verbatim>\<open>__proto__\<close>
  for which the store returned a value, each with that value. Consequently, in the flat
  merge, a key listed under a layer whose fetch returns \<^verbatim>\<open>null\<close> keeps the value the
  merge of the other layers gives it.
\<close>

theorem absent_value_keeps_lower_layer:
  "getSecretsForService st svc [] = ([], Inr Map.empty)
   \<and> (keysOk st svc keys \<longrightarrow>
        (\<exists>m. getSecretsForService st svc keys = (map (Pair svc) keys, Inr m) \<and>
             dom m = {k \<in> set keys. k \<noteq> ''__proto__'' \<and> (\<exists>v. st svc k = Inr (Some v))} \<and>
             (\<forall>k v. m k = Some v \<longleftrightarrow>
                k \<in> set keys \<and> k \<noteq> ''__proto__'' \<and> st svc k = Inr (Some v))))
   \<and> (storeAnswers st g (runLayers serviceArg envArg) \<and>
        runLayers serviceArg envArg = pre @ [L] @ post \<and>
        k \<in> set (groupsGet g L) \<and> st L k = Inr None \<longrightarrow>
        (\<exists>c1 m1 c2 m2.
           mergeGroups st g serviceArg envArg = (c1, Inr m1) \<and>
           mergeLoop st g (pre @ post) Map.empty = (c2, Inr m2) \<and>
           m1 k = m2 k))"
proof (intro conjI impI)
  show "getSecretsForService st svc [] = ([], Inr Map.empty)"
    by (simp add: getSecretsForService_def)
next
  assume ok: "keysOk st svc keys"
  define m where
    "m = (\<lambda>k. if k \<in> set keys \<and> k \<noteq> ''__proto__'' then fetched st svc k else None)"
  have run: "getSecretsForService st svc keys = (map (Pair svc) keys, Inr m)"
    using getSecretsForService_ok[OF ok] by (simp add: m_def)
  have val: "m k = Some v \<longleftrightarrow> k \<in> set keys \<and> k \<noteq> ''__proto__'' \<and> st svc k = Inr (Some v)"
    for k v
    by (simp add: m_def fetched_Some_iff)
  have "dom m = {k \<in> set keys. k \<noteq> ''__proto__'' \<and> (\<exists>v. st svc k = Inr (Some v))}"
    using val by (auto simp: dom_def)
  with run val
  show "\<exists>m. getSecretsForService st svc keys = (map (Pair svc) keys, Inr m) \<and>
             dom m = {k \<in> set keys. k \<noteq> ''__proto__'' \<and> (\<exists>v. st svc k = Inr (Some v))} \<and>
             (\<forall>k v. m k = Some v \<longleftrightarrow>
                k \<in> set keys \<and> k \<noteq> ''__proto__'' \<and> st svc k = Inr (Some v))"
    by blast
next
  assume h: "storeAnswers st g (runLayers serviceArg envArg) \<and>
        runLayers serviceArg envArg = pre @ [L] @ post \<and>
        k \<in> set (groupsGet g L) \<and> st L k = Inr None"
  then have e: "runLayers serviceArg envArg = pre @ [L] @ post" by blast
  from h have "storeAnswers st g (runLayers serviceArg envArg)" by blast
  then have ok1: "storeAnswers st g (pre @ [L] @ post)" unfolding e .
  then have ok2: "storeAnswers st g (pre @ post)"
    by (simp add: storeAnswers_def)
  have none: "layerValues st g L k = None"
    using h by (simp add: layerValues_def fetched_def)
  have r1: "mergeGroups st g serviceArg envArg =
      (concat (map (\<lambda>layer. map (Pair layer) (groupsGet g layer)) (pre @ [L] @ post)),
       Inr (foldl (++) Map.empty (map (layerValues st g) (pre @ [L] @ post))))"
    unfolding mergeGroups_def e by (rule mergeLoop_ok[OF ok1])
  have r2: "mergeLoop st g (pre @ post) Map.empty =
      (concat (map (\<lambda>layer. map (Pair layer) (groupsGet g layer)) (pre @ post)),
       Inr (foldl (++) Map.empty (map (layerValues st g) (pre @ post))))"
    by (rule mergeLoop_ok[OF ok2])
  have "(foldl (++) Map.empty (map (layerValues st g) pre @ [layerValues st g L] @ map (layerValues st g) post)) k
      = (foldl (++) Map.empty (map (layerValues st g) pre @ map (layerValues st g) post)) k"
    by (rule foldl_map_add_skip[of "layerValues st g L" k Map.empty
          "map (layerValues st g) pre" "map (layerValues st g) post", OF none])
  then have "(foldl (++) Map.empty (map (layerValues st g) (pre @ [L] @ post))) k
      = (foldl (++) Map.empty (map (layerValues st g) (pre @ post))) k"
    by simp
  with r1 r2
  show "\<exists>c1 m1 c2 m2.
           mergeGroups st g serviceArg envArg = (c1, Inr m1) \<and>
           mergeLoop st g (pre @ post) Map.empty = (c2, Inr m2) \<and>
           m1 k = m2 k"
    by blast
qed

theorem absent_value_keeps_lower_layer_witness:
  "keysOk sparseStore ''app'' [''X'', ''Y''] \<and>
   (\<exists>m. getSecretsForService sparseStore ''app'' [''X'', ''Y'']
           = ([(''app'', ''X''), (''app'', ''Y'')], Inr m) \<and>
        dom m = {''X''} \<and> m ''X'' = Some ''2'') \<and>
   keysOk protoStore ''app'' [''__proto__''] \<and>
   (\<exists>m. getSecretsForService protoStore ''app'' [''__proto__'']
           = ([(''app'', ''__proto__'')], Inr m) \<and> dom m = {}) \<and>
   storeAnswers sparseStore exampleGroups (runLayers (Some ''app'') (Some ''dev'')) \<and>
   (\<exists>c1 m1 c2 m2.
      mergeGroups sparseStore exampleGroups (Some ''app'') (Some ''dev'') = (c1, Inr m1) \<and>
      mergeLoop sparseStore exampleGroups [''_'', ''app''] Map.empty = (c2, Inr m2) \<and>
      m1 ''X'' = m2 ''X'' \<and> m2 ''X'' = Some ''2'')"
proof -
  have k: "keysOk sparseStore ''app'' [''X'', ''Y'']"
    by (simp add: keysOk_def sparseStore_def)
  have kp: "keysOk protoStore ''app'' [''__proto__'']"
    by (simp add: keysOk_def protoStore_def)
  have layers: "runLayers (Some ''app'') (Some ''dev'') = [''_'', ''app''] @ [''app::dev''] @ []"
    by (simp add: runLayers_def truthy_def)
  have ok: "storeAnswers sparseStore exampleGroups (runLayers (Some ''app'') (Some ''dev''))"
    by (simp add: layers storeAnswers_def keysOk_def groupsGet_def exampleGroups_def sparseStore_def)
  have inl: "''X'' \<in> set (groupsGet exampleGroups ''app::dev'')"
    by (simp add: groupsGet_def exampleGroups_def)
  have absent: "sparseStore ''app::dev'' ''X'' = Inr None"
    by (simp add: sparseStore_def)
  note inst1 = absent_value_keeps_lower_layer[of sparseStore "''app''" "[''X'', ''Y'']"
      exampleGroups "Some ''app''" "Some ''dev''" "[''_'', ''app'']" "''app::dev''" "[]" "''X''"]
  from inst1[THEN conjunct2, THEN conjunct1, THEN mp, OF k] obtain m where
    mm: "getSecretsForService sparseStore ''app'' [''X'', ''Y'']
           = (map (Pair ''app'') [''X'', ''Y''], Inr m) \<and>
         dom m = {k \<in> set [''X'', ''Y'']. k \<noteq> ''__proto__'' \<and>
                      (\<exists>v. sparseStore ''app'' k = Inr (Some v))} \<and>
         (\<forall>k v. m k = Some v \<longleftrightarrow>
              k \<in> set [''X'', ''Y''] \<and> k \<noteq> ''__proto__'' \<and> sparseStore ''app'' k = Inr (Some v))"
    ..
  from mm have m: "getSecretsForService sparseStore ''app'' [''X'', ''Y'']
           = (map (Pair ''app'') [''X'', ''Y''], Inr m)"
    by (rule conjunct1)
  from mm[THEN conjunct2] have d: "dom m = {k \<in> set [''X'', ''Y'']. k \<noteq> ''__proto__'' \<and>
                      (\<exists>v. sparseStore ''app'' k = Inr (Some v))}"
    by (rule conjunct1)
  from mm[THEN conjunct2] have v: "\<forall>k v. m k = Some v \<longleftrightarrow>
              k \<in> set [''X'', ''Y''] \<and> k \<noteq> ''__proto__'' \<and> sparseStore ''app'' k = Inr (Some v)"
    by (rule conjunct2)
  have d': "dom m = {''X''}"
    unfolding d by (auto simp: sparseStore_def)
  have v': "m ''X'' = Some ''2''"
    using v by (simp add: sparseStore_def)
  from absent_value_keeps_lower_layer[of protoStore "''app''" "[''__proto__'']",
      THEN conjunct2, THEN conjunct1, THEN mp, OF kp]
  obtain mp where
    mmp: "getSecretsForService protoStore ''app'' [''__proto__'']
           = (map (Pair ''app'') [''__proto__''], Inr mp) \<and>
         dom mp = {k \<in> set [''__proto__'']. k \<noteq> ''__proto__'' \<and>
                       (\<exists>v. protoStore ''app'' k = Inr (Some v))} \<and>
         (\<forall>k v. mp k = Some v \<longleftrightarrow>
              k \<in> set [''__proto__''] \<and> k \<noteq> ''__proto__'' \<and> protoStore ''app'' k = Inr (Some v))"
    ..
  from mmp have gp: "getSecretsForService protoStore ''app'' [''__proto__'']
           = (map (Pair ''app'') [''__proto__''], Inr mp)"
    by (rule conjunct1)
  from mmp[THEN conjunct2] have dp: "dom mp = {k \<in> set [''__proto__'']. k \<noteq> ''__proto__'' \<and>
                       (\<exists>v. protoStore ''app'' k = Inr (Some v))}"
    by (rule conjunct1)
  have dp': "dom mp = {}"
    unfolding dp by auto
  have p: "\<exists>m. getSecretsForService protoStore ''app'' [''__proto__'']
           = ([(''app'', ''__proto__'')], Inr m) \<and> dom m = {}"
    using gp dp' by simp
  have hyp: "storeAnswers sparseStore exampleGroups (runLayers (Some ''app'') (Some ''dev'')) \<and>
        runLayers (Some ''app'') (Some ''dev'') = [''_'', ''app''] @ [''app::dev''] @ [] \<and>
        ''X'' \<in> set (groupsGet exampleGroups ''app::dev'') \<and>
        sparseStore ''app::dev'' ''X'' = Inr None"
    using ok layers inl absent by (intro conjI)
  from inst1[THEN conjunct2, THEN conjunct2, THEN mp, OF hyp] obtain c1 m1 c2 m2 where
    rr: "mergeGroups sparseStore exampleGroups (Some ''app'') (Some ''dev'') = (c1, Inr m1) \<and>
         mergeLoop sparseStore exampleGroups ([''_'', ''app''] @ []) Map.empty = (c2, Inr m2) \<and>
         m1 ''X'' = m2 ''X''"
    by (elim exE)
  from rr have r1: "mergeGroups sparseStore exampleGroups (Some ''app'') (Some ''dev'') = (c1, Inr m1)"
    by (rule conjunct1)
  from rr[THEN conjunct2] have r2: "mergeLoop sparseStore exampleGroups ([''_'', ''app''] @ []) Map.empty = (c2, Inr m2)"
    by (rule conjunct1)
  from rr[THEN conjunct2] have eq: "m1 ''X'' = m2 ''X''"
    by (rule conjunct2)
  have r2': "mergeLoop sparseStore exampleGroups [''_'', ''app''] Map.empty = (c2, Inr m2)"
    using r2 by simp
  then have x2: "m2 ''X'' = Some ''2''"
    by (auto simp: groupsGet_def exampleGroups_def getSecretsForService_def sparseStore_def
        map_add_def objSet_def)
  have s1: "\<exists>m. getSecretsForService sparseStore ''app'' [''X'', ''Y'']
           = ([(''app'', ''X''), (''app'', ''Y'')], Inr m) \<and>
        dom m = {''X''} \<and> m ''X'' = Some ''2''"
    using m d' v' by simp
  have s2: "\<exists>c1 m1 c2 m2.
      mergeGroups sparseStore exampleGroups (Some ''app'') (Some ''dev'') = (c1, Inr m1) \<and>
      mergeLoop sparseStore exampleGroups [''_'', ''app''] Map.empty = (c2, Inr m2) \<and>
      m1 ''X'' = m2 ''X'' \<and> m2 ''X'' = Some ''2''"
    using r1 r2' eq x2 by blast
  from k s1 kp p ok s2 show ?thesis by (intro conjI)
qed

section \<open>Properties of the merged view\<close>

lemma inner_set_layer:
  "foldl (\<lambda>w' k. w'(k \<mapsto> layer)) w keys k' = (if k' \<in> set keys then Some layer else w k')"
  by (induction keys arbitrary: w) auto

lemma fold_last_writer:
  assumes "\<And>w x. F w x k = (if P x then Some x else w k)"
  shows "foldl F w0 xs k =
     (case filter P xs of [] \<Rightarrow> w0 k | y # ys \<Rightarrow> Some (last (y # ys)))"
proof (induction xs arbitrary: w0)
  case Nil
  then show ?case by simp
next
  case (Cons x xs)
  have "foldl F w0 (x # xs) k = foldl F (F w0 x) xs k" by simp
  also have "\<dots> = (case filter P xs of [] \<Rightarrow> F w0 x k | y # ys \<Rightarrow> Some (last (y # ys)))"
    by (rule Cons.IH)
  also have "\<dots> = (case filter P (x # xs) of [] \<Rightarrow> w0 k | y # ys \<Rightarrow> Some (last (y # ys)))"
    by (cases "filter P xs") (simp_all add: assms)
  finally show ?case .
qed

lemma winning_fold:
  "winningLayer g layers k =
     (case filter (\<lambda>layer. k \<in> set (groupsGet g layer)) layers of
        [] \<Rightarrow> None
      | L # Ls \<Rightarrow> Some (last (L # Ls)))"
proof -
  have "foldl (\<lambda>w layer. foldl (\<lambda>w' k. w'(k \<mapsto> layer)) w (groupsGet g layer)) Map.empty layers k =
     (case filter (\<lambda>layer. k \<in> set (groupsGet g layer)) layers of
        [] \<Rightarrow> Map.empty k
      | L # Ls \<Rightarrow> Some (last (L # Ls)))"
    by (rule fold_last_writer) (rule inner_set_layer)
  then show ?thesis by (simp add: winningLayer_def)
qed

lemma winningLayer_last:
  assumes "L \<in> set layers" "k \<in> set (groupsGet g L)"
  shows "winningLayer g layers k = Some (lastLayerWith g layers k)"
proof -
  have "filter (\<lambda>layer. k \<in> set (groupsGet g layer)) layers \<noteq> []"
    using assms by (auto simp: filter_empty_conv)
  then show ?thesis
    unfolding lastLayerWith_def winning_fold
    by (simp split: list.splits)
qed

lemma ov_inner:
  "x \<in> foldl (\<lambda>ov' k. if w k \<noteq> Some layer then insert (layer @ '':'' @ k) ov' else ov') ov keys
   \<longleftrightarrow> x \<in> ov \<or> (\<exists>k\<in>set keys. w k \<noteq> Some layer \<and> x = layer @ '':'' @ k)"
  by (induction keys arbitrary: ov) auto

lemma ov_outer:
  "x \<in> foldl (\<lambda>ov layer.
               if layer = [] then ov
               else foldl (\<lambda>ov' k. if w k \<noteq> Some layer then insert (layer @ '':'' @ k) ov'
                                     else ov')
                      ov (groupsGet g layer))
        ov0 ls
   \<longleftrightarrow> x \<in> ov0 \<or> (\<exists>L\<in>set ls. L \<noteq> [] \<and> (\<exists>k\<in>set (groupsGet g L). w k \<noteq> Some L \<and> x = L @ '':'' @ k))"
proof (induction ls arbitrary: ov0)
  case Nil
  then show ?case by simp
next
  case (Cons a ls)
  show ?case
    by (auto simp: Cons.IH ov_inner)
qed

lemma overriddenKeys_iff:
  "x \<in> overriddenKeys g layers \<longleftrightarrow>
     (\<exists>L\<in>set (butlast layers). L \<noteq> [] \<and>
        (\<exists>k\<in>set (groupsGet g L). winningLayer g layers k \<noteq> Some L \<and> x = L @ '':'' @ k))"
  unfolding overriddenKeys_def Let_def ov_outer by simp

lemma first_sep_unique:
  "x \<notin> set xs \<Longrightarrow> x \<notin> set xs' \<Longrightarrow> xs @ x # ys = xs' @ x # ys' \<Longrightarrow> xs = xs' \<and> ys = ys'"
proof (induction xs arbitrary: xs')
  case Nil
  then show ?case by (cases xs') auto
next
  case (Cons a xs)
  then show ?case by (cases xs') auto
qed

lemma mark_split:
  assumes "CHR '':'' \<notin> set k" "CHR '':'' \<notin> set k'" "L @ '':'' @ k = L' @ '':'' @ k'"
  shows "L = L' \<and> k = k'"
proof -
  have "rev (L @ '':'' @ k) = rev (L' @ '':'' @ k')"
    using assms(3) by (rule arg_cong)
  then have "rev k @ CHR '':'' # rev L = rev k' @ CHR '':'' # rev L'"
    by simp
  moreover have "CHR '':'' \<notin> set (rev k)" "CHR '':'' \<notin> set (rev k')"
    using assms(1,2) by simp_all
  ultimately have "rev k = rev k' \<and> rev L = rev L'"
    using first_sep_unique[of "CHR '':''" "rev k" "rev k'" "rev L" "rev L'"] by blast
  then show ?thesis by simp
qed

lemma keyTail_not_colon: "keyTailChar c \<Longrightarrow> c \<noteq> CHR '':''"
  by (auto simp: keyTailChar_def upperChars_def digitChars_def)

lemma keyHead_not_colon: "keyHeadChar c \<Longrightarrow> c \<noteq> CHR '':''"
  by (auto simp: keyHeadChar_def upperChars_def)

lemma KEY_PATTERN_no_colon: "KEY_PATTERN k \<Longrightarrow> CHR '':'' \<notin> set k"
  using keyTail_not_colon keyHead_not_colon
  by (cases k) (auto simp: KEY_PATTERN_def list_all_iff)

lemma validKeys_groupsGet:
  assumes "validKeys g" "k \<in> set (groupsGet g L)"
  shows "KEY_PATTERN k"
proof (cases "map_of g L")
  case None
  then show ?thesis using assms(2) by (simp add: groupsGet_def)
next
  case (Some keys)
  then have "(L, keys) \<in> set g" by (rule map_of_SomeD)
  moreover have "k \<in> set keys" using assms(2) Some by (simp add: groupsGet_def)
  ultimately show ?thesis using assms(1) by (auto simp: validKeys_def list_all_iff)
qed

lemma listLayers_nonempty_names:
  "svc \<noteq> [] \<Longrightarrow> L \<in> set (listLayers svc envArg) \<Longrightarrow> L \<noteq> []"
  by (auto simp: listLayers_def split: if_splits)

lemma in_butlast: "L \<in> set xs \<Longrightarrow> L \<noteq> last xs \<Longrightarrow> L \<in> set (butlast xs)"
  by (induction xs) (auto split: if_splits)

lemma last_filter_is_last: "xs \<noteq> [] \<Longrightarrow> P (last xs) \<Longrightarrow> last (filter P xs) = last xs"
  by (induction xs) (auto simp: filter_empty_conv)

lemma lastLayerWith_in:
  assumes "L \<in> set layers" "k \<in> set (groupsGet g L)"
  shows "lastLayerWith g layers k \<in> set layers \<and> k \<in> set (groupsGet g (lastLayerWith g layers k))"
proof -
  let ?f = "filter (\<lambda>layer. k \<in> set (groupsGet g layer)) layers"
  have "?f \<noteq> []" using assms by (auto simp: filter_empty_conv)
  then have "last ?f \<in> set ?f" by (rule last_in_set)
  then show ?thesis by (simp add: lastLayerWith_def)
qed


lemma update_subset: "set (AList.update k v g) \<subseteq> insert (k, v) (set g)"
  by (induction g) auto

lemma groupsGet_in:
  "x \<in> set (groupsGet g ns) \<Longrightarrow> \<exists>keys. (ns, keys) \<in> set g \<and> x \<in> set keys"
  by (cases "map_of g ns") (auto simp: groupsGet_def dest: map_of_SomeD)

lemma grouping_keeps_keys:
  assumes "\<forall>(ns, keys)\<in>set g. \<forall>k\<in>set keys. P k" "\<forall>e\<in>set es. P (key e)"
  shows "\<forall>(ns, keys)\<in>set (foldl (\<lambda>g entry. AList.update (service entry)
            (groupsGet g (service entry) @ [key entry]) g) g es). \<forall>k\<in>set keys. P k"
  using assms
proof (induction es arbitrary: g)
  case Nil
  then show ?case by simp
next
  case (Cons e es)
  let ?g = "AList.update (service e) (groupsGet g (service e) @ [key e]) g"
  have "\<forall>(ns, keys)\<in>set ?g. \<forall>k\<in>set keys. P k"
  proof (clarify)
    fix ns keys k
    assume in_g: "(ns, keys) \<in> set ?g" and k: "k \<in> set keys"
    from in_g update_subset[of "service e" "groupsGet g (service e) @ [key e]" g]
    consider "(ns, keys) = (service e, groupsGet g (service e) @ [key e])" | "(ns, keys) \<in> set g"
      by auto
    then show "P k"
    proof cases
      case 1
      then have "k \<in> set (groupsGet g (service e)) \<or> k = key e" using k by auto
      then show ?thesis
        using Cons.prems groupsGet_in[of k g "service e"] by auto
    next
      case 2
      then show ?thesis using Cons.prems(1) k by auto
    qed
  qed
  moreover have "\<forall>e\<in>set es. P (key e)" using Cons.prems(2) by simp
  ultimately show ?case using Cons.IH[of ?g] by simp
qed

lemma validKeys_of_filtered: "validKeys (groupByService (filterShhEnvEntries es))"
proof -
  have "\<forall>e\<in>set (filterShhEnvEntries es). KEY_PATTERN (key e)"
    by (simp add: filterShhEnvEntries_def)
  then have "\<forall>(ns, keys)\<in>set (foldl (\<lambda>g entry. AList.update (service entry)
            (groupsGet g (service entry) @ [key entry]) g) [] (filterShhEnvEntries es)).
          \<forall>k\<in>set keys. KEY_PATTERN k"
    by (intro grouping_keeps_keys) simp_all
  then show ?thesis
    by (auto simp: validKeys_def groupByService_def list_all_iff)
qed

lemma winningLayer_cong:
  assumes "\<forall>L\<in>set layers. groupsGet g' L = groupsGet g L"
  shows "winningLayer g' layers k = winningLayer g layers k"
proof -
  have "filter (\<lambda>layer. k \<in> set (groupsGet g' layer)) layers =
        filter (\<lambda>layer. k \<in> set (groupsGet g layer)) layers"
    using assms by (intro filter_cong) auto
  then show ?thesis by (simp add: winning_fold)
qed

lemma overriddenKeys_cong:
  assumes "\<forall>L\<in>set layers. groupsGet g' L = groupsGet g L"
  shows "overriddenKeys g' layers = overriddenKeys g layers"
proof (rule set_eqI)
  fix x
  have w: "winningLayer g' layers k = winningLayer g layers k" for k
    using assms by (rule winningLayer_cong)
  have b: "groupsGet g' L = groupsGet g L" if "L \<in> set (butlast layers)" for L
    using assms that by (auto dest: in_set_butlastD)
  show "x \<in> overriddenKeys g' layers \<longleftrightarrow> x \<in> overriddenKeys g layers"
    unfolding overriddenKeys_iff using w b by auto
qed

text \<open>
  Claim C2 (annotated merge for display). For a non-empty service, a group map whose
  keys follow the key grammar (\<open>validKeys_of_filtered\<close>: the map the command builds is
  one), a resolved layer \<open>L\<close> and a key \<open>k\<close> of its group: the
  occurrence of \<open>k\<close> in \<open>L\<close> is marked shadowed (the set of overridden keys holds
  \<^verbatim>\<open>L:k\<close>, which is what the tree printer tests) exactly when \<open>L\<close> is not the last
  resolved layer that lists \<open>k\<close>; so a key listed by one resolved layer only is visible;
  and the marks depend on the groups of the resolved layers only, whatever other
  namespaces the map holds. The witness is the example of the specification: \<^verbatim>\<open>X\<close> is
  shadowed in \<^verbatim>\<open>_\<close> and \<^verbatim>\<open>app\<close> and visible in \<^verbatim>\<open>app::dev\<close>, and a duplicate
  of \<^verbatim>\<open>X\<close> in a namespace outside the layers marks nothing.
\<close>

theorem annotated_merge_marks:
  assumes "svc \<noteq> []" "validKeys g"
    and "L \<in> set (listLayers svc envArg)" "k \<in> set (groupsGet g L)"
  shows "(L @ '':'' @ k \<in> overriddenKeys g (listLayers svc envArg)
            \<longleftrightarrow> L \<noteq> lastLayerWith g (listLayers svc envArg) k)
       \<and> ((\<forall>L'\<in>set (listLayers svc envArg). L' \<noteq> L \<longrightarrow> k \<notin> set (groupsGet g L'))
            \<longrightarrow> L @ '':'' @ k \<notin> overriddenKeys g (listLayers svc envArg))
       \<and> (\<forall>g'. (\<forall>L'\<in>set (listLayers svc envArg). groupsGet g' L' = groupsGet g L')
            \<longrightarrow> overriddenKeys g' (listLayers svc envArg) = overriddenKeys g (listLayers svc envArg))"
proof -
  define layers where "layers = listLayers svc envArg"
  define W where "W = lastLayerWith g layers k"
  have Lin: "L \<in> set layers" using assms(3) by (simp add: layers_def)
  have win: "winningLayer g layers k = Some W"
    unfolding W_def using Lin assms(4) by (rule winningLayer_last)
  have kc: "CHR '':'' \<notin> set k"
    using assms(2,4) validKeys_groupsGet KEY_PATTERN_no_colon by blast
  have main: "L @ '':'' @ k \<in> overriddenKeys g layers \<longleftrightarrow> L \<noteq> W"
  proof
    assume "L @ '':'' @ k \<in> overriddenKeys g layers"
    then obtain L0 k0 where
      k0: "k0 \<in> set (groupsGet g L0)" and
      w0: "winningLayer g layers k0 \<noteq> Some L0" and
      eq: "L @ '':'' @ k = L0 @ '':'' @ k0"
      unfolding overriddenKeys_iff by blast
    have "CHR '':'' \<notin> set k0"
      using assms(2) k0 validKeys_groupsGet KEY_PATTERN_no_colon by blast
    then have "L = L0 \<and> k = k0" by (rule mark_split[OF kc _ eq])
    with w0 win show "L \<noteq> W" by auto
  next
    assume ne: "L \<noteq> W"
    have "L \<noteq> last layers"
    proof
      assume l: "L = last layers"
      have "layers \<noteq> []" using Lin by auto
      moreover have "k \<in> set (groupsGet g (last layers))" using assms(4) l by simp
      ultimately have "last (filter (\<lambda>layer. k \<in> set (groupsGet g layer)) layers) = last layers"
        by (rule last_filter_is_last)
      then have "W = L" by (simp add: W_def lastLayerWith_def l)
      with ne show False by simp
    qed
    with Lin have "L \<in> set (butlast layers)" by (rule in_butlast)
    moreover have "L \<noteq> []"
      using assms(1,3) by (rule listLayers_nonempty_names)
    moreover have "winningLayer g layers k \<noteq> Some L" using win ne by simp
    ultimately show "L @ '':'' @ k \<in> overriddenKeys g layers"
      unfolding overriddenKeys_iff using assms(4) by blast
  qed
  have single: "L @ '':'' @ k \<notin> overriddenKeys g layers"
    if only: "\<forall>L'\<in>set layers. L' \<noteq> L \<longrightarrow> k \<notin> set (groupsGet g L')"
  proof -
    have "W \<in> set layers \<and> k \<in> set (groupsGet g W)"
      unfolding W_def using Lin assms(4) by (rule lastLayerWith_in)
    with only have "W = L" by blast
    with main show ?thesis by simp
  qed
  have frame: "overriddenKeys g' layers = overriddenKeys g layers"
    if "\<forall>L'\<in>set layers. groupsGet g' L' = groupsGet g L'" for g'
    using that by (rule overriddenKeys_cong)
  from main single frame show ?thesis
    unfolding layers_def W_def by blast
qed

theorem annotated_merge_marks_witness:
  "''app'' \<noteq> [] \<and> validKeys exampleGroups \<and>
   ''_:X'' \<in> overriddenKeys exampleGroups (listLayers ''app'' (Some ''dev'')) \<and>
   ''app:X'' \<in> overriddenKeys exampleGroups (listLayers ''app'' (Some ''dev'')) \<and>
   ''app::dev:X'' \<notin> overriddenKeys exampleGroups (listLayers ''app'' (Some ''dev'')) \<and>
   ''_:X'' \<notin> overriddenKeys [(''_'', [''X'']), (''other'', [''X''])] (listLayers ''app'' (Some ''dev'')) \<and>
   overriddenKeys [(''_'', [''X'']), (''other'', [''X''])] (listLayers ''app'' (Some ''dev''))
     = overriddenKeys [(''_'', [''X''])] (listLayers ''app'' (Some ''dev''))"
proof -
  have layers: "listLayers ''app'' (Some ''dev'') = [''_'', ''app'', ''app::dev'']"
    by (simp add: listLayers_def truthy_def)
  have v: "validKeys exampleGroups"
    by (simp add: validKeys_def exampleGroups_def KEY_PATTERN_def keyHeadChar_def upperChars_def)
  have w: "lastLayerWith exampleGroups (listLayers ''app'' (Some ''dev'')) ''X'' = ''app::dev''"
    by (simp add: layers lastLayerWith_def groupsGet_def exampleGroups_def)
  have g: "''X'' \<in> set (groupsGet exampleGroups ''_'')" "''X'' \<in> set (groupsGet exampleGroups ''app'')"
    "''X'' \<in> set (groupsGet exampleGroups ''app::dev'')"
    by (simp_all add: groupsGet_def exampleGroups_def)
  have l: "''_'' \<in> set (listLayers ''app'' (Some ''dev''))" "''app'' \<in> set (listLayers ''app'' (Some ''dev''))"
    "''app::dev'' \<in> set (listLayers ''app'' (Some ''dev''))"
    by (simp_all add: layers)
  have ne: "''app'' \<noteq> []" by simp
  have m1: "''_:X'' \<in> overriddenKeys exampleGroups (listLayers ''app'' (Some ''dev''))"
    using annotated_merge_marks[OF ne v l(1) g(1), THEN conjunct1] unfolding w by simp
  have m2: "''app:X'' \<in> overriddenKeys exampleGroups (listLayers ''app'' (Some ''dev''))"
    using annotated_merge_marks[OF ne v l(2) g(2), THEN conjunct1] unfolding w by simp
  have m3: "''app::dev:X'' \<notin> overriddenKeys exampleGroups (listLayers ''app'' (Some ''dev''))"
    using annotated_merge_marks[OF ne v l(3) g(3), THEN conjunct1] unfolding w by simp
  let ?g = "[(''_'', [''X'']), (''other'', [''X''])]"
  have v2: "validKeys [(''_'', [''X''])]"
    by (simp add: validKeys_def KEY_PATTERN_def keyHeadChar_def upperChars_def)
  have g2: "''X'' \<in> set (groupsGet [(''_'', [''X''])] ''_'')"
    by (simp add: groupsGet_def)
  have v3: "validKeys ?g"
    by (simp add: validKeys_def KEY_PATTERN_def keyHeadChar_def upperChars_def)
  have g3: "''X'' \<in> set (groupsGet ?g ''_'')"
    by (simp add: groupsGet_def)
  have only: "\<forall>L'\<in>set (listLayers ''app'' (Some ''dev'')). L' \<noteq> ''_'' \<longrightarrow> ''X'' \<notin> set (groupsGet ?g L')"
    by (simp add: layers groupsGet_def)
  have "''_'' @ '':'' @ ''X'' \<notin> overriddenKeys ?g (listLayers ''app'' (Some ''dev''))"
    using annotated_merge_marks[OF ne v3 l(1) g3, THEN conjunct2, THEN conjunct1] only by (rule mp)
  then have m4: "''_:X'' \<notin> overriddenKeys ?g (listLayers ''app'' (Some ''dev''))"
    by simp
  have agree: "\<forall>L'\<in>set (listLayers ''app'' (Some ''dev'')). groupsGet ?g L' = groupsGet [(''_'', [''X''])] L'"
    by (simp add: layers groupsGet_def)
  have m5: "overriddenKeys ?g (listLayers ''app'' (Some ''dev''))
     = overriddenKeys [(''_'', [''X''])] (listLayers ''app'' (Some ''dev''))"
    using annotated_merge_marks[OF ne v2 l(1) g2, THEN conjunct2, THEN conjunct2, rule_format, of ?g]
      agree by blast
  from ne v m1 m2 m3 m4 m5 show ?thesis by (intro conjI)
qed

text \<open>
  Claim C8 (merged view of empty layers), evaluated on the code. With secrets under
  \<^verbatim>\<open>_\<close> and \<^verbatim>\<open>app::dev\<close> and none under \<^verbatim>\<open>app\<close>, the view asked for
  \<^verbatim>\<open>app\<close> and \<^verbatim>\<open>dev\<close> prints two blank lines between the two namespaces; with
  secrets under \<^verbatim>\<open>_\<close> only, the view asked for \<^verbatim>\<open>app\<close> ends with a blank line:
  the absent layer prints no header and no branch, but its blank line is printed. The
  root layer with no key still prints its header.
\<close>

theorem merged_view_blank_lines:
  "printMergedView [(''_'', [''A'']), (''app::dev'', [''B''])] ''app'' (Some ''dev'')
     = [''_'', branchLast @ ''A'', [], [], ''app::dev'', branchLast @ ''B'']
   \<and> printMergedView [(''_'', [''A''])] ''app'' None = [''_'', branchLast @ ''A'', []]
   \<and> printMergedView [(''app'', [''A''])] ''app'' None = [''_'', [], ''app'', branchLast @ ''A'']"
  by (simp add: printMergedView_def listLayers_def truthy_def groupsGet_def overriddenKeys_def
      winningLayer_def Let_def)

section \<open>Properties of the enumeration parsers\<close>

lemma stepLinux_boundary:
  "boundaryLinux line \<Longrightarrow> stepLinux (es, s, a) line = (flushLinux (es, s, a), [], [])"
  by (simp add: boundaryLinux_def)

lemma stepLinux_inside:
  "\<not> boundaryLinux line \<Longrightarrow>
   stepLinux (es, s, a) line =
     (es, (case serviceOfLinux line of None \<Rightarrow> s | Some v \<Rightarrow> v),
          (case accountOfLinux line of None \<Rightarrow> a | Some v \<Rightarrow> v))"
  by (simp add: boundaryLinux_def serviceOfLinux_def accountOfLinux_def Let_def)

lemma lastOr_step:
  "lastOr (case f x of None \<Rightarrow> d | Some v \<Rightarrow> v) (List.map_filter f xs) = lastOr d (List.map_filter f (x # xs))"
  by (cases "f x") (simp_all add: lastOr_def List.map_filter_simps)

lemma scanBody_Linux:
  "list_all (\<lambda>l. \<not> boundaryLinux l) body \<Longrightarrow>
   foldl stepLinux (es, s, a) body =
     (es, lastOr s (List.map_filter serviceOfLinux body),
          lastOr a (List.map_filter accountOfLinux body))"
proof (induction body arbitrary: s a)
  case Nil
  then show ?case by (simp add: lastOr_def List.map_filter_simps)
next
  case (Cons l body)
  then have nb: "\<not> boundaryLinux l" and rest: "list_all (\<lambda>l. \<not> boundaryLinux l) body"
    by simp_all
  show ?case
    unfolding foldl_Cons stepLinux_inside[OF nb] Cons.IH[OF rest] lastOr_step ..
qed

lemma scanLinux_snoc_record:
  assumes "boundaryLinux hdr" "list_all (\<lambda>l. \<not> boundaryLinux l) body"
  shows "foldl stepLinux ([], [], []) (pre @ hdr # body) =
     (scanLinux pre, lastOr [] (List.map_filter serviceOfLinux body),
                     lastOr [] (List.map_filter accountOfLinux body))"
proof -
  obtain es s a where st: "foldl stepLinux ([], [], []) pre = (es, s, a)"
    by (cases "foldl stepLinux ([], [], []) pre") auto
  have "foldl stepLinux ([], [], []) (pre @ hdr # body) =
        foldl stepLinux (stepLinux (es, s, a) hdr) body"
    by (simp add: st)
  also have "\<dots> = foldl stepLinux (scanLinux pre, [], []) body"
    unfolding stepLinux_boundary[OF assms(1)] scanLinux_def st ..
  also have "\<dots> = (scanLinux pre, lastOr [] (List.map_filter serviceOfLinux body),
                     lastOr [] (List.map_filter accountOfLinux body))"
    by (rule scanBody_Linux[OF assms(2)])
  finally show ?thesis .
qed

declare stepLinux.simps [simp del]

lemma trimEnd_clean: "spaceAtEnd (trimEnd s) = None"
proof (induction s rule: trimEnd.induct)
  case (1 s)
  show ?case
  proof (cases "spaceAtEnd s")
    case None
    then show ?thesis by (simp add: trimEnd.simps[of s])
  next
    case (Some w)
    then show ?thesis using 1[OF Some] by (simp add: trimEnd.simps[of s])
  qed
qed

lemma js_trim_clean: "spaceAtEnd (js_trim s) = None"
  by (simp add: js_trim_def trimEnd_clean)

lemma replaceFirst_prefix:
  "p \<noteq> [] \<Longrightarrow> startsWith s p \<Longrightarrow> replaceFirst s p [] = drop (length p) s"
  by (cases s) (auto simp: startsWith_def)

lemma attr_value_nonempty:
  assumes "startsWith (js_trim line) p" "p \<noteq> []" "spaceAtEnd p \<noteq> None"
  shows "replaceFirst (js_trim line) p [] \<noteq> []"
proof
  assume e: "replaceFirst (js_trim line) p [] = []"
  have "replaceFirst (js_trim line) p [] = drop (length p) (js_trim line)"
    using assms(2,1) by (rule replaceFirst_prefix)
  with e have "length (js_trim line) \<le> length p" by simp
  moreover have "take (length p) (js_trim line) = p"
    using assms(1) by (simp add: startsWith_def)
  ultimately have "js_trim line = p" by simp
  then have "spaceAtEnd p = None" using js_trim_clean[of line] by simp
  with assms(3) show False by simp
qed

lemma serviceAttr_facts: "serviceAttr \<noteq> []" "spaceAtEnd serviceAttr \<noteq> None"
  by (simp_all add: serviceAttr_def spaceAtEnd_def whiteSpaceSeqs_def endsWith_def)

lemma accountAttr_facts: "accountAttr \<noteq> []" "spaceAtEnd accountAttr \<noteq> None"
  by (simp_all add: accountAttr_def spaceAtEnd_def whiteSpaceSeqs_def endsWith_def)

lemma serviceOfLinux_nonempty: "serviceOfLinux line = Some v \<Longrightarrow> v \<noteq> []"
  using attr_value_nonempty[OF _ serviceAttr_facts, of line]
  by (auto simp: serviceOfLinux_def Let_def split: if_splits)

lemma accountOfLinux_nonempty: "accountOfLinux line = Some v \<Longrightarrow> v \<noteq> []"
  using attr_value_nonempty[OF _ accountAttr_facts, of line]
  by (auto simp: accountOfLinux_def Let_def split: if_splits)

lemma map_filter_all: "v \<in> set (List.map_filter f xs) \<Longrightarrow> \<exists>x\<in>set xs. f x = Some v"
  by (auto simp: List.map_filter_def)

lemma lastOr_nonempty:
  assumes "\<And>x v. f x = Some v \<Longrightarrow> v \<noteq> []" "List.map_filter f xs \<noteq> []"
  shows "lastOr d (List.map_filter f xs) = last (List.map_filter f xs)
         \<and> last (List.map_filter f xs) \<noteq> []"
proof -
  have "last (List.map_filter f xs) \<in> set (List.map_filter f xs)"
    using assms(2) by (rule last_in_set)
  then obtain x where "f x = Some (last (List.map_filter f xs))"
    using map_filter_all by fastforce
  then have "last (List.map_filter f xs) \<noteq> []" by (rule assms(1))
  then show ?thesis using assms(2) by (simp add: lastOr_def)
qed

lemma linux_final_record:
  assumes "boundaryLinux hdr" "list_all (\<lambda>l. \<not> boundaryLinux l) body"
    and "List.map_filter serviceOfLinux body \<noteq> []" "List.map_filter accountOfLinux body \<noteq> []"
  shows "scanLinux (pre @ hdr # body) =
     scanLinux pre @ [\<lparr>service = last (List.map_filter serviceOfLinux body),
                        key = last (List.map_filter accountOfLinux body)\<rparr>]"
proof -
  have s: "lastOr [] (List.map_filter serviceOfLinux body) = last (List.map_filter serviceOfLinux body)
      \<and> last (List.map_filter serviceOfLinux body) \<noteq> []"
    using serviceOfLinux_nonempty assms(3) by (rule lastOr_nonempty)
  have a: "lastOr [] (List.map_filter accountOfLinux body) = last (List.map_filter accountOfLinux body)
      \<and> last (List.map_filter accountOfLinux body) \<noteq> []"
    using accountOfLinux_nonempty assms(4) by (rule lastOr_nonempty)
  show ?thesis
    unfolding scanLinux_def[of "pre @ hdr # body"] scanLinux_snoc_record[OF assms(1,2)]
    using s a by simp
qed

lemma linux_partial_record:
  assumes "boundaryLinux hdr" "list_all (\<lambda>l. \<not> boundaryLinux l) body"
    and "List.map_filter serviceOfLinux body = [] \<or> List.map_filter accountOfLinux body = []"
    and "rest = [] \<or> boundaryLinux (hd rest)"
  shows "scanLinux (pre @ hdr # body @ rest) = scanLinux (pre @ rest)"
proof -
  define s where "s = lastOr [] (List.map_filter serviceOfLinux body)"
  define a where "a = lastOr [] (List.map_filter accountOfLinux body)"
  have empty: "s = [] \<or> a = []"
    using assms(3) by (auto simp: s_def a_def lastOr_def)
  have st: "foldl stepLinux ([], [], []) (pre @ hdr # body) = (scanLinux pre, s, a)"
    unfolding s_def a_def by (rule scanLinux_snoc_record[OF assms(1,2)])
  obtain es0 s0 a0 where st0: "foldl stepLinux ([], [], []) pre = (es0, s0, a0)"
    by (cases "foldl stepLinux ([], [], []) pre") auto
  show ?thesis
  proof (cases rest)
    case Nil
    have "scanLinux (pre @ hdr # body) = flushLinux (scanLinux pre, s, a)"
      by (simp only: scanLinux_def[of "pre @ hdr # body"] st)
    also have "\<dots> = scanLinux pre" using empty by auto
    finally show ?thesis by (simp add: Nil)
  next
    case (Cons r rest')
    then have b: "boundaryLinux r" using assms(4) by simp
    have "foldl stepLinux ([], [], []) (pre @ hdr # body @ rest) =
          foldl stepLinux (stepLinux (foldl stepLinux ([], [], []) (pre @ hdr # body)) r) rest'"
      by (simp add: Cons)
    also have "\<dots> = foldl stepLinux (flushLinux (scanLinux pre, s, a), [], []) rest'"
      unfolding st stepLinux_boundary[OF b] ..
    also have "flushLinux (scanLinux pre, s, a) = scanLinux pre"
      using empty by auto
    also have "foldl stepLinux (scanLinux pre, [], []) rest' =
          foldl stepLinux (stepLinux (foldl stepLinux ([], [], []) pre) r) rest'"
      unfolding st0 stepLinux_boundary[OF b] scanLinux_def st0 ..
    also have "\<dots> = foldl stepLinux ([], [], []) (pre @ rest)"
      by (simp add: Cons)
    finally show ?thesis by (simp add: scanLinux_def)
  qed
qed

lemma linux_no_service:
  "List.map_filter serviceOfLinux ls = [] \<Longrightarrow> \<exists>a'. foldl stepLinux (es, [], a) ls = (es, [], a')"
proof (induction ls arbitrary: a)
  case Nil
  then show ?case by simp
next
  case (Cons l ls)
  from Cons.prems have none: "serviceOfLinux l = None" and rest: "List.map_filter serviceOfLinux ls = []"
    by (auto simp: List.map_filter_simps split: option.splits)
  show ?case
  proof (cases "boundaryLinux l")
    case True
    then show ?thesis using Cons.IH[OF rest, of "[]"] by (simp add: stepLinux_boundary)
  next
    case False
    then show ?thesis
      using Cons.IH[OF rest] none by (simp add: stepLinux_inside)
  qed
qed

lemma linux_no_account:
  "List.map_filter accountOfLinux ls = [] \<Longrightarrow> \<exists>s'. foldl stepLinux (es, s, []) ls = (es, s', [])"
proof (induction ls arbitrary: s)
  case Nil
  then show ?case by simp
next
  case (Cons l ls)
  from Cons.prems have none: "accountOfLinux l = None" and rest: "List.map_filter accountOfLinux ls = []"
    by (auto simp: List.map_filter_simps split: option.splits)
  show ?case
  proof (cases "boundaryLinux l")
    case True
    then show ?thesis using Cons.IH[OF rest, of "[]"] by (simp add: stepLinux_boundary)
  next
    case False
    then show ?thesis
      using Cons.IH[OF rest] none by (simp add: stepLinux_inside)
  qed
qed

lemma linux_no_match:
  assumes "List.map_filter serviceOfLinux ls = [] \<or> List.map_filter accountOfLinux ls = []"
  shows "scanLinux ls = []"
  using assms linux_no_service[of ls "[]" "[]"] linux_no_account[of ls "[]" "[]"]
  by (auto simp: scanLinux_def)

lemma stepMacOS_boundary:
  "boundaryMacOS line \<Longrightarrow>
   stepMacOS (es, c, s, a) line = (flushMacOS (es, c, s, a), classOfLine (js_trim line), [], [])"
  by (simp add: boundaryMacOS_def)

lemma stepMacOS_inside:
  "\<not> boundaryMacOS line \<Longrightarrow>
   stepMacOS (es, c, s, a) line =
     (es, c, (case serviceOfMacOS line of None \<Rightarrow> s | Some v \<Rightarrow> v),
             (case accountOfMacOS line of None \<Rightarrow> a | Some v \<Rightarrow> v))"
  by (simp add: boundaryMacOS_def serviceOfMacOS_def accountOfMacOS_def Let_def
      split: option.splits)

declare stepMacOS.simps [simp del]

lemma scanBody_MacOS:
  "list_all (\<lambda>l. \<not> boundaryMacOS l) body \<Longrightarrow>
   foldl stepMacOS (es, c, s, a) body =
     (es, c, lastOr s (List.map_filter serviceOfMacOS body),
             lastOr a (List.map_filter accountOfMacOS body))"
proof (induction body arbitrary: s a)
  case Nil
  then show ?case by (simp add: lastOr_def List.map_filter_simps)
next
  case (Cons l body)
  then have nb: "\<not> boundaryMacOS l" and rest: "list_all (\<lambda>l. \<not> boundaryMacOS l) body"
    by simp_all
  show ?case
    unfolding foldl_Cons stepMacOS_inside[OF nb] Cons.IH[OF rest] lastOr_step ..
qed

lemma scanMacOS_snoc_record:
  assumes "boundaryMacOS hdr" "list_all (\<lambda>l. \<not> boundaryMacOS l) body"
  shows "foldl stepMacOS ([], [], [], []) (pre @ hdr # body) =
     (scanMacOS pre, classOfLine (js_trim hdr),
      lastOr [] (List.map_filter serviceOfMacOS body),
      lastOr [] (List.map_filter accountOfMacOS body))"
proof -
  obtain es c s a where st: "foldl stepMacOS ([], [], [], []) pre = (es, c, s, a)"
    by (cases "foldl stepMacOS ([], [], [], []) pre") auto
  have "foldl stepMacOS ([], [], [], []) (pre @ hdr # body) =
        foldl stepMacOS (stepMacOS (es, c, s, a) hdr) body"
    by (simp add: st)
  also have "\<dots> = foldl stepMacOS (scanMacOS pre, classOfLine (js_trim hdr), [], []) body"
    unfolding stepMacOS_boundary[OF assms(1)] scanMacOS_def st ..
  also have "\<dots> = (scanMacOS pre, classOfLine (js_trim hdr),
      lastOr [] (List.map_filter serviceOfMacOS body),
      lastOr [] (List.map_filter accountOfMacOS body))"
    by (rule scanBody_MacOS[OF assms(2)])
  finally show ?thesis .
qed

lemma blobValueAt_nonempty: "blobValueAt tag s = Some v \<Longrightarrow> v \<noteq> []"
  by (auto simp: blobValueAt_def Let_def split: if_splits)

lemma searchBlob_nonempty: "searchBlob tag s = Some v \<Longrightarrow> v \<noteq> []"
  by (induction s) (auto simp: blobValueAt_nonempty split: option.splits)

lemma serviceOfMacOS_nonempty: "serviceOfMacOS line = Some v \<Longrightarrow> v \<noteq> []"
  by (auto simp: serviceOfMacOS_def Let_def searchBlob_nonempty split: if_splits)

lemma accountOfMacOS_nonempty: "accountOfMacOS line = Some v \<Longrightarrow> v \<noteq> []"
  by (auto simp: accountOfMacOS_def Let_def searchBlob_nonempty split: if_splits)

lemma mac_final_record:
  assumes "genpHeader hdr" "list_all (\<lambda>l. \<not> boundaryMacOS l) body"
    and "List.map_filter serviceOfMacOS body \<noteq> []" "List.map_filter accountOfMacOS body \<noteq> []"
  shows "scanMacOS (pre @ hdr # body) =
     scanMacOS pre @ [\<lparr>service = last (List.map_filter serviceOfMacOS body),
                        key = last (List.map_filter accountOfMacOS body)\<rparr>]"
proof -
  have b: "boundaryMacOS hdr" and c: "classOfLine (js_trim hdr) = genpClass"
    using assms(1) by (simp_all add: genpHeader_def)
  have s: "lastOr [] (List.map_filter serviceOfMacOS body) = last (List.map_filter serviceOfMacOS body)
      \<and> last (List.map_filter serviceOfMacOS body) \<noteq> []"
    using serviceOfMacOS_nonempty assms(3) by (rule lastOr_nonempty)
  have a: "lastOr [] (List.map_filter accountOfMacOS body) = last (List.map_filter accountOfMacOS body)
      \<and> last (List.map_filter accountOfMacOS body) \<noteq> []"
    using accountOfMacOS_nonempty assms(4) by (rule lastOr_nonempty)
  show ?thesis
    unfolding scanMacOS_def[of "pre @ hdr # body"] scanMacOS_snoc_record[OF b assms(2)]
    using s a c by simp
qed

lemma mac_partial_record:
  assumes "boundaryMacOS hdr" "list_all (\<lambda>l. \<not> boundaryMacOS l) body"
    and "\<not> genpHeader hdr \<or> List.map_filter serviceOfMacOS body = []
         \<or> List.map_filter accountOfMacOS body = []"
    and "rest = [] \<or> boundaryMacOS (hd rest)"
  shows "scanMacOS (pre @ hdr # body @ rest) = scanMacOS (pre @ rest)"
proof -
  define c where "c = classOfLine (js_trim hdr)"
  define s where "s = lastOr [] (List.map_filter serviceOfMacOS body)"
  define a where "a = lastOr [] (List.map_filter accountOfMacOS body)"
  have empty: "c \<noteq> genpClass \<or> s = [] \<or> a = []"
    using assms(1,3) by (auto simp: c_def s_def a_def lastOr_def genpHeader_def)
  then have fl: "flushMacOS (scanMacOS pre, c, s, a) = scanMacOS pre" by auto
  have st: "foldl stepMacOS ([], [], [], []) (pre @ hdr # body) = (scanMacOS pre, c, s, a)"
    unfolding c_def s_def a_def by (rule scanMacOS_snoc_record[OF assms(1,2)])
  obtain es0 c0 s0 a0 where st0: "foldl stepMacOS ([], [], [], []) pre = (es0, c0, s0, a0)"
    by (cases "foldl stepMacOS ([], [], [], []) pre") auto
  show ?thesis
  proof (cases rest)
    case Nil
    have "scanMacOS (pre @ hdr # body) = flushMacOS (scanMacOS pre, c, s, a)"
      by (simp only: scanMacOS_def[of "pre @ hdr # body"] st)
    then have "scanMacOS (pre @ hdr # body) = scanMacOS pre"
      by (simp only: fl)
    then show ?thesis by (simp add: Nil)
  next
    case (Cons r rest')
    then have b: "boundaryMacOS r" using assms(4) by simp
    have "foldl stepMacOS ([], [], [], []) (pre @ hdr # body @ rest) =
          foldl stepMacOS (stepMacOS (foldl stepMacOS ([], [], [], []) (pre @ hdr # body)) r) rest'"
      by (simp add: Cons)
    also have "\<dots> = foldl stepMacOS (flushMacOS (scanMacOS pre, c, s, a), classOfLine (js_trim r), [], []) rest'"
      unfolding st stepMacOS_boundary[OF b] ..
    also have "\<dots> = foldl stepMacOS (scanMacOS pre, classOfLine (js_trim r), [], []) rest'"
      by (simp only: fl)
    also have "\<dots> = foldl stepMacOS (stepMacOS (foldl stepMacOS ([], [], [], []) pre) r) rest'"
      unfolding st0 stepMacOS_boundary[OF b] scanMacOS_def st0 ..
    also have "\<dots> = foldl stepMacOS ([], [], [], []) (pre @ rest)"
      by (simp add: Cons)
    finally show ?thesis by (simp add: scanMacOS_def)
  qed
qed

lemma mac_no_service:
  "List.map_filter serviceOfMacOS ls = [] \<Longrightarrow>
   \<exists>c' a'. foldl stepMacOS (es, c, [], a) ls = (es, c', [], a')"
proof (induction ls arbitrary: c a)
  case Nil
  then show ?case by simp
next
  case (Cons l ls)
  from Cons.prems have none: "serviceOfMacOS l = None" and rest: "List.map_filter serviceOfMacOS ls = []"
    by (auto simp: List.map_filter_simps split: option.splits)
  show ?case
  proof (cases "boundaryMacOS l")
    case True
    then show ?thesis using Cons.IH[OF rest] by (simp add: stepMacOS_boundary)
  next
    case False
    then show ?thesis
      using Cons.IH[OF rest] none by (simp add: stepMacOS_inside)
  qed
qed

lemma mac_no_account:
  "List.map_filter accountOfMacOS ls = [] \<Longrightarrow>
   \<exists>c' s'. foldl stepMacOS (es, c, s, []) ls = (es, c', s', [])"
proof (induction ls arbitrary: c s)
  case Nil
  then show ?case by simp
next
  case (Cons l ls)
  from Cons.prems have none: "accountOfMacOS l = None" and rest: "List.map_filter accountOfMacOS ls = []"
    by (auto simp: List.map_filter_simps split: option.splits)
  show ?case
  proof (cases "boundaryMacOS l")
    case True
    then show ?thesis using Cons.IH[OF rest] by (simp add: stepMacOS_boundary)
  next
    case False
    then show ?thesis
      using Cons.IH[OF rest] none by (simp add: stepMacOS_inside)
  qed
qed

lemma mac_no_genp:
  "list_all (\<lambda>l. \<not> genpHeader l) ls \<Longrightarrow> c \<noteq> genpClass \<Longrightarrow>
   \<exists>c' s' a'. foldl stepMacOS (es, c, s, a) ls = (es, c', s', a') \<and> c' \<noteq> genpClass"
proof (induction ls arbitrary: c s a)
  case Nil
  then show ?case by simp
next
  case (Cons l ls)
  from Cons.prems have ng: "\<not> genpHeader l" and rest: "list_all (\<lambda>l. \<not> genpHeader l) ls"
    by simp_all
  show ?case
  proof (cases "boundaryMacOS l")
    case True
    then have "classOfLine (js_trim l) \<noteq> genpClass" using ng by (simp add: genpHeader_def)
    then show ?thesis
      using Cons.IH[OF rest, of "classOfLine (js_trim l)"] Cons.prems(2) True
      by (simp add: stepMacOS_boundary)
  next
    case False
    then show ?thesis
      using Cons.IH[OF rest Cons.prems(2)] by (simp add: stepMacOS_inside)
  qed
qed

lemma mac_no_match:
  assumes "List.map_filter serviceOfMacOS ls = [] \<or> List.map_filter accountOfMacOS ls = []
           \<or> list_all (\<lambda>l. \<not> genpHeader l) ls"
  shows "scanMacOS ls = []"
proof -
  have g: "[] \<noteq> genpClass" by (simp add: genpClass_def)
  show ?thesis
    using assms mac_no_service[of ls "[]" "[]" "[]"] mac_no_account[of ls "[]" "[]" "[]"]
      mac_no_genp[of ls "[]" "[]" "[]" "[]", OF _ g]
    by (auto simp: scanMacOS_def)
qed

lemma stepWindows_entry:
  "stepWindows es line = es @ (case entryOfWindows line of None \<Rightarrow> [] | Some e \<Rightarrow> [e])"
  by (simp add: stepWindows_def entryOfWindows_def Let_def split: option.splits)

lemma foldl_stepWindows:
  "foldl stepWindows es ls = es @ List.map_filter entryOfWindows ls"
  by (induction ls arbitrary: es)
     (simp_all add: stepWindows_entry List.map_filter_simps split: option.splits)

lemma scanWindows_map_filter: "scanWindows ls = List.map_filter entryOfWindows ls"
  by (simp add: scanWindows_def foldl_stepWindows)

lemma map_filter_append: "List.map_filter f (xs @ ys) = List.map_filter f xs @ List.map_filter f ys"
  by (simp add: List.map_filter_def)

lemma map_filter_none: "list_all (\<lambda>l. f l = None) xs \<Longrightarrow> List.map_filter f xs = []"
  by (induction xs) (simp_all add: List.map_filter_simps)

lemma windows_final_record:
  assumes "entryOfWindows target = Some e" "list_all (\<lambda>l. entryOfWindows l = None) rest"
  shows "scanWindows (pre @ target # rest) = scanWindows pre @ [e]"
  using assms
  by (simp add: scanWindows_map_filter map_filter_append map_filter_none List.map_filter_simps)

lemma windows_skip:
  assumes "entryOfWindows line = None"
  shows "scanWindows (pre @ line # rest) = scanWindows (pre @ rest)"
  using assms
  by (simp add: scanWindows_map_filter map_filter_append List.map_filter_simps)

lemma windows_no_match:
  "list_all (\<lambda>l. entryOfWindows l = None) ls \<Longrightarrow> scanWindows ls = []"
  by (simp add: scanWindows_map_filter map_filter_none)

lemma no_line_iff: "filter P ls = [] \<longleftrightarrow> list_all (\<lambda>l. \<not> P l) ls"
  by (simp add: filter_empty_conv list_all_iff)

lemma no_entry_iff: "List.map_filter f ls = [] \<longleftrightarrow> list_all (\<lambda>l. f l = None) ls"
  by (induction ls) (auto split: option.splits)

text \<open>
  Claim C6 (end-of-stream flush on every platform). On each of the three platforms, when
  the lines of the output end with a complete record that no record boundary follows,
  the result is the entries of the lines before that record followed by the entry of the
  record. On Linux and macOS the record is a boundary line (on macOS of the class
  \<^verbatim>\<open>"genp"\<close>) and lines without a boundary among which a service line and an account
  line occur; the entry holds the last service and the last account of the record, and
  comes from the flush after the scan. On Windows the record is a target line that gives
  both fields, followed by lines that give no entry; the scan pushes its entry on the
  target line itself, so nothing is pending at the end.
\<close>

theorem final_record_is_flushed:
  "(boundaryLinux hdr \<and> filter boundaryLinux body = [] \<and>
    List.map_filter serviceOfLinux body \<noteq> [] \<and> List.map_filter accountOfLinux body \<noteq> [] \<and>
    js_split result nl = pre @ hdr # body
    \<longrightarrow> enumerateLinux (Inr result) =
          scanLinux pre @ [\<lparr>service = last (List.map_filter serviceOfLinux body),
                             key = last (List.map_filter accountOfLinux body)\<rparr>])
   \<and> (genpHeader hdr \<and> filter boundaryMacOS body = [] \<and>
    List.map_filter serviceOfMacOS body \<noteq> [] \<and> List.map_filter accountOfMacOS body \<noteq> [] \<and>
    js_split result nl = pre @ hdr # body
    \<longrightarrow> enumerateMacOS (Inr result) =
          scanMacOS pre @ [\<lparr>service = last (List.map_filter serviceOfMacOS body),
                             key = last (List.map_filter accountOfMacOS body)\<rparr>])
   \<and> (entryOfWindows hdr = Some e \<and> List.map_filter entryOfWindows body = [] \<and>
    js_split result nl = pre @ hdr # body
    \<longrightarrow> enumerateWindows (Inr result) = scanWindows pre @ [e])"
proof (intro conjI impI)
  assume h: "boundaryLinux hdr \<and> filter boundaryLinux body = [] \<and>
    List.map_filter serviceOfLinux body \<noteq> [] \<and> List.map_filter accountOfLinux body \<noteq> [] \<and>
    js_split result nl = pre @ hdr # body"
  then have "scanLinux (pre @ hdr # body) =
     scanLinux pre @ [\<lparr>service = last (List.map_filter serviceOfLinux body),
                        key = last (List.map_filter accountOfLinux body)\<rparr>]"
    by (intro linux_final_record) (simp_all add: no_line_iff)
  with h show "enumerateLinux (Inr result) =
          scanLinux pre @ [\<lparr>service = last (List.map_filter serviceOfLinux body),
                             key = last (List.map_filter accountOfLinux body)\<rparr>]"
    by (simp add: enumerateLinux_def nl_def)
next
  assume h: "genpHeader hdr \<and> filter boundaryMacOS body = [] \<and>
    List.map_filter serviceOfMacOS body \<noteq> [] \<and> List.map_filter accountOfMacOS body \<noteq> [] \<and>
    js_split result nl = pre @ hdr # body"
  then have "scanMacOS (pre @ hdr # body) =
     scanMacOS pre @ [\<lparr>service = last (List.map_filter serviceOfMacOS body),
                        key = last (List.map_filter accountOfMacOS body)\<rparr>]"
    by (intro mac_final_record) (simp_all add: no_line_iff)
  with h show "enumerateMacOS (Inr result) =
          scanMacOS pre @ [\<lparr>service = last (List.map_filter serviceOfMacOS body),
                             key = last (List.map_filter accountOfMacOS body)\<rparr>]"
    by (simp add: enumerateMacOS_def nl_def)
next
  assume h: "entryOfWindows hdr = Some e \<and> List.map_filter entryOfWindows body = [] \<and>
    js_split result nl = pre @ hdr # body"
  then have "scanWindows (pre @ hdr # body) = scanWindows pre @ [e]"
    by (intro windows_final_record) (simp_all add: no_entry_iff)
  with h show "enumerateWindows (Inr result) = scanWindows pre @ [e]"
    by (simp add: enumerateWindows_def nl_def)
qed

theorem final_record_is_flushed_witness:
  "enumerateLinux (Inr linuxListing) =
     [\<lparr>service = ''app'', key = ''A''\<rparr>, \<lparr>service = ''my-app'', key = ''API_KEY''\<rparr>]
   \<and> enumerateMacOS (Inr macListing) = [\<lparr>service = ''my-app'', key = ''API_KEY''\<rparr>]
   \<and> enumerateWindows (Inr windowsListing) = [\<lparr>service = ''my-app'', key = ''API_KEY''\<rparr>]"
proof -
  let ?lpre = "[''[/1]'', ''attribute.service = app'', ''attribute.account = A'']"
  let ?lbody = "[''  attribute.service = my-app'', ''attribute.account = API_KEY'']"
  have l1: "js_split linuxListing nl = ?lpre @ ''[/2]'' # ?lbody"
    by code_simp
  have l2: "boundaryLinux ''[/2]''" "filter boundaryLinux ?lbody = []"
    by code_simp+
  have l3: "List.map_filter serviceOfLinux ?lbody = [''my-app'']"
    by code_simp
  have l4: "List.map_filter accountOfLinux ?lbody = [''API_KEY'']"
    by code_simp
  have l5: "scanLinux ?lpre = [\<lparr>service = ''app'', key = ''A''\<rparr>]"
    by code_simp
  have linux: "enumerateLinux (Inr linuxListing) =
     [\<lparr>service = ''app'', key = ''A''\<rparr>, \<lparr>service = ''my-app'', key = ''API_KEY''\<rparr>]"
    using final_record_is_flushed[where hdr = "''[/2]''" and body = ?lbody
        and result = linuxListing and pre = ?lpre, THEN conjunct1]
      l1 l2 l3 l4 l5 by simp
  let ?mpre = "[''keychain: login'']"
  let ?mhdr = "''class: '' @ genpClass"
  let ?mbody = "[''attributes:'', ''    '' @ acctTag @ ''<blob>='' @ [dq] @ ''API_KEY'' @ [dq],
                ''    '' @ svceTag @ ''<blob>='' @ [dq] @ ''my-app'' @ [dq]]"
  have m1: "js_split macListing nl = ?mpre @ ?mhdr # ?mbody"
    by code_simp
  have m2: "genpHeader ?mhdr" "filter boundaryMacOS ?mbody = []"
    by code_simp+
  have m3: "List.map_filter serviceOfMacOS ?mbody = [''my-app'']"
    by code_simp
  have m4: "List.map_filter accountOfMacOS ?mbody = [''API_KEY'']"
    by code_simp
  have m5: "scanMacOS ?mpre = []"
    by code_simp
  have mac: "enumerateMacOS (Inr macListing) = [\<lparr>service = ''my-app'', key = ''API_KEY''\<rparr>]"
    using final_record_is_flushed[where hdr = ?mhdr and body = ?mbody
        and result = macListing and pre = ?mpre, THEN conjunct2, THEN conjunct1]
      m1 m2 m3 m4 m5 by simp
  let ?wpre = "[''Currently stored credentials:'']"
  let ?whdr = "''    Target: LegacyGeneric:target=my-app/API_KEY'' @ [CHR 0x0D]"
  let ?wbody = "[''    Type: Generic'', ''    User: me'']"
  have w1: "js_split windowsListing nl = ?wpre @ ?whdr # ?wbody"
    by code_simp
  have w2: "entryOfWindows ?whdr = Some \<lparr>service = ''my-app'', key = ''API_KEY''\<rparr>"
    by code_simp
  have w3: "List.map_filter entryOfWindows ?wbody = []"
    by code_simp
  have w4: "scanWindows ?wpre = []"
    by code_simp
  have win: "enumerateWindows (Inr windowsListing) = [\<lparr>service = ''my-app'', key = ''API_KEY''\<rparr>]"
    using final_record_is_flushed[where hdr = ?whdr and body = ?wbody
        and result = windowsListing and pre = ?wpre
        and e = "\<lparr>service = ''my-app'', key = ''API_KEY''\<rparr>", THEN conjunct2, THEN conjunct2]
      w1 w2 w3 w4 by simp
  from linux mac win show ?thesis by (intro conjI)
qed


text \<open>
  Claim C7 (best-effort enumeration). On the three supported platforms
  \<open>enumerateSecrets\<close> returns a list and no error. When the listing command fails the
  list is empty. When the output holds no matching record (on macOS and Linux no service
  line or no account line, on macOS no \<^verbatim>\<open>"genp"\<close> class line either, on Windows no
  target line that gives both fields) the list is empty. A record that is partial or
  malformed (a field is missing, or on macOS the class is another one; on Windows a line
  that gives no entry) contributes nothing and the rest is parsed as if the record were
  not there: the result is the result of the output without the lines of that record.
\<close>

theorem enumeration_is_best_effort:
  "enumerateSecrets ''darwin'' out = Inr (enumerateMacOS out)
   \<and> enumerateSecrets ''linux'' out = Inr (enumerateLinux out)
   \<and> enumerateSecrets ''win32'' out = Inr (enumerateWindows out)
   \<and> enumerateMacOS (Inl err) = [] \<and> enumerateLinux (Inl err) = []
   \<and> enumerateWindows (Inl err) = []
   \<and> (List.map_filter serviceOfMacOS (js_split result nl) = []
        \<or> List.map_filter accountOfMacOS (js_split result nl) = []
        \<or> filter genpHeader (js_split result nl) = []
       \<longrightarrow> enumerateMacOS (Inr result) = [])
   \<and> (List.map_filter serviceOfLinux (js_split result nl) = []
        \<or> List.map_filter accountOfLinux (js_split result nl) = []
       \<longrightarrow> enumerateLinux (Inr result) = [])
   \<and> (List.map_filter entryOfWindows (js_split result nl) = []
       \<longrightarrow> enumerateWindows (Inr result) = [])
   \<and> (boundaryMacOS hdr \<and> filter boundaryMacOS body = [] \<and>
       (\<not> genpHeader hdr \<or> List.map_filter serviceOfMacOS body = []
          \<or> List.map_filter accountOfMacOS body = []) \<and>
       (rest = [] \<or> boundaryMacOS (hd rest)) \<and>
       js_split result nl = pre @ hdr # body @ rest
       \<longrightarrow> enumerateMacOS (Inr result) = scanMacOS (pre @ rest))
   \<and> (boundaryLinux hdr \<and> filter boundaryLinux body = [] \<and>
       (List.map_filter serviceOfLinux body = [] \<or> List.map_filter accountOfLinux body = []) \<and>
       (rest = [] \<or> boundaryLinux (hd rest)) \<and>
       js_split result nl = pre @ hdr # body @ rest
       \<longrightarrow> enumerateLinux (Inr result) = scanLinux (pre @ rest))
   \<and> (entryOfWindows hdr = None \<and> js_split result nl = pre @ hdr # rest
       \<longrightarrow> enumerateWindows (Inr result) = scanWindows (pre @ rest))"
proof (intro conjI impI)
  show "enumerateSecrets ''darwin'' out = Inr (enumerateMacOS out)"
    by (simp add: enumerateSecrets_def)
  show "enumerateSecrets ''linux'' out = Inr (enumerateLinux out)"
    by (simp add: enumerateSecrets_def)
  show "enumerateSecrets ''win32'' out = Inr (enumerateWindows out)"
    by (simp add: enumerateSecrets_def)
  show "enumerateMacOS (Inl err) = []" by (simp add: enumerateMacOS_def)
  show "enumerateLinux (Inl err) = []" by (simp add: enumerateLinux_def)
  show "enumerateWindows (Inl err) = []" by (simp add: enumerateWindows_def)
next
  assume "List.map_filter serviceOfMacOS (js_split result nl) = []
        \<or> List.map_filter accountOfMacOS (js_split result nl) = []
        \<or> filter genpHeader (js_split result nl) = []"
  then have "scanMacOS (js_split result nl) = []"
    by (intro mac_no_match) (simp add: no_line_iff)
  then show "enumerateMacOS (Inr result) = []" by (simp add: enumerateMacOS_def nl_def)
next
  assume "List.map_filter serviceOfLinux (js_split result nl) = []
        \<or> List.map_filter accountOfLinux (js_split result nl) = []"
  then have "scanLinux (js_split result nl) = []" by (rule linux_no_match)
  then show "enumerateLinux (Inr result) = []" by (simp add: enumerateLinux_def nl_def)
next
  assume "List.map_filter entryOfWindows (js_split result nl) = []"
  then have "scanWindows (js_split result nl) = []"
    by (intro windows_no_match) (simp add: no_entry_iff)
  then show "enumerateWindows (Inr result) = []" by (simp add: enumerateWindows_def nl_def)
next
  assume h: "boundaryMacOS hdr \<and> filter boundaryMacOS body = [] \<and>
       (\<not> genpHeader hdr \<or> List.map_filter serviceOfMacOS body = []
          \<or> List.map_filter accountOfMacOS body = []) \<and>
       (rest = [] \<or> boundaryMacOS (hd rest)) \<and>
       js_split result nl = pre @ hdr # body @ rest"
  then have "scanMacOS (pre @ hdr # body @ rest) = scanMacOS (pre @ rest)"
    by (intro mac_partial_record) (simp_all add: no_line_iff)
  with h show "enumerateMacOS (Inr result) = scanMacOS (pre @ rest)"
    by (simp add: enumerateMacOS_def nl_def)
next
  assume h: "boundaryLinux hdr \<and> filter boundaryLinux body = [] \<and>
       (List.map_filter serviceOfLinux body = [] \<or> List.map_filter accountOfLinux body = []) \<and>
       (rest = [] \<or> boundaryLinux (hd rest)) \<and>
       js_split result nl = pre @ hdr # body @ rest"
  then have "scanLinux (pre @ hdr # body @ rest) = scanLinux (pre @ rest)"
    by (intro linux_partial_record) (simp_all add: no_line_iff)
  with h show "enumerateLinux (Inr result) = scanLinux (pre @ rest)"
    by (simp add: enumerateLinux_def nl_def)
next
  assume h: "entryOfWindows hdr = None \<and> js_split result nl = pre @ hdr # rest"
  then have "scanWindows (pre @ hdr # rest) = scanWindows (pre @ rest)"
    by (intro windows_skip) simp
  with h show "enumerateWindows (Inr result) = scanWindows (pre @ rest)"
    by (simp add: enumerateWindows_def nl_def)
qed

theorem enumeration_is_best_effort_witness:
  "enumerateSecrets ''linux'' (Inl (CommandFailed ''secret-tool'')) = Inr []
   \<and> enumerateMacOS (Inr macForeign) = []
   \<and> enumerateLinux (Inr []) = []
   \<and> enumerateWindows (Inr windowsNone) = []
   \<and> enumerateMacOS (Inr macPartial) = [\<lparr>service = ''my-app'', key = ''API_KEY''\<rparr>]
   \<and> enumerateLinux (Inr linuxPartial) = [\<lparr>service = ''my-app'', key = ''API_KEY''\<rparr>]
   \<and> enumerateWindows (Inr windowsPartial) = [\<lparr>service = ''my-app'', key = ''API_KEY''\<rparr>]"
proof -
  have c1: "enumerateSecrets ''linux'' (Inl (CommandFailed ''secret-tool'')) = Inr []"
    using enumeration_is_best_effort[where out = "Inl (CommandFailed ''secret-tool'')"
        and err = "CommandFailed ''secret-tool''"]
    by simp
  have n1: "filter genpHeader (js_split macForeign nl) = []" by code_simp
  have c2: "enumerateMacOS (Inr macForeign) = []"
    using enumeration_is_best_effort[where result = macForeign] n1 by blast
  have n2: "List.map_filter serviceOfLinux (js_split [] nl) = []" by code_simp
  have c3: "enumerateLinux (Inr []) = []"
    using enumeration_is_best_effort[where result = "[]"] n2 by blast
  have n3: "List.map_filter entryOfWindows (js_split windowsNone nl) = []" by code_simp
  have c4: "enumerateWindows (Inr windowsNone) = []"
    using enumeration_is_best_effort[where result = windowsNone] n3 by blast
  let ?mhdr = "''class: '' @ [dq] @ ''inet'' @ [dq]"
  let ?mbody = "[svceTag @ ''<blob>='' @ [dq] @ ''web'' @ [dq],
                 acctTag @ ''<blob>='' @ [dq] @ ''me'' @ [dq]]"
  let ?mrest = "[''class: '' @ genpClass,
                 svceTag @ ''<blob>='' @ [dq] @ ''my-app'' @ [dq],
                 acctTag @ ''<blob>='' @ [dq] @ ''API_KEY'' @ [dq]]"
  have m1: "js_split macPartial nl = [] @ ?mhdr # ?mbody @ ?mrest" by code_simp
  have m2: "boundaryMacOS ?mhdr" by code_simp
  have m3: "filter boundaryMacOS ?mbody = []" by code_simp
  have m4: "\<not> genpHeader ?mhdr" by code_simp
  have m5: "boundaryMacOS (hd ?mrest)" by code_simp
  have m6: "scanMacOS ([] @ ?mrest) = [\<lparr>service = ''my-app'', key = ''API_KEY''\<rparr>]"
    by code_simp
  have "enumerateMacOS (Inr macPartial) = scanMacOS ([] @ ?mrest)"
    using enumeration_is_best_effort[where result = macPartial and hdr = ?mhdr
        and body = ?mbody and rest = ?mrest and pre = "[]"] m1 m2 m3 m4 m5
    by blast
  then have c5: "enumerateMacOS (Inr macPartial) = [\<lparr>service = ''my-app'', key = ''API_KEY''\<rparr>]"
    by (simp only: m6)
  let ?lbody = "[''attribute.service = app'']"
  let ?lrest = "[''[/2]'', ''attribute.service = my-app'', ''attribute.account = API_KEY'']"
  have l1: "js_split linuxPartial nl = [] @ ''[/1]'' # ?lbody @ ?lrest" by code_simp
  have l2: "boundaryLinux ''[/1]''" by code_simp
  have l3: "filter boundaryLinux ?lbody = []" by code_simp
  have l4: "List.map_filter accountOfLinux ?lbody = []" by code_simp
  have l5: "boundaryLinux (hd ?lrest)" by code_simp
  have l6: "scanLinux ([] @ ?lrest) = [\<lparr>service = ''my-app'', key = ''API_KEY''\<rparr>]"
    by code_simp
  have "enumerateLinux (Inr linuxPartial) = scanLinux ([] @ ?lrest)"
    using enumeration_is_best_effort[where result = linuxPartial and hdr = "''[/1]''"
        and body = ?lbody and rest = ?lrest and pre = "[]"] l1 l2 l3 l4 l5
    by blast
  then have c6: "enumerateLinux (Inr linuxPartial) = [\<lparr>service = ''my-app'', key = ''API_KEY''\<rparr>]"
    by (simp only: l6)
  have w1: "js_split windowsPartial nl = [] @ ''Target: Domain:target=host'' # [''Target: my-app/API_KEY'']"
    by code_simp
  have w2: "entryOfWindows ''Target: Domain:target=host'' = None" by code_simp
  have w3: "scanWindows ([] @ [''Target: my-app/API_KEY'']) = [\<lparr>service = ''my-app'', key = ''API_KEY''\<rparr>]"
    by code_simp
  have "enumerateWindows (Inr windowsPartial) = scanWindows ([] @ [''Target: my-app/API_KEY''])"
    using enumeration_is_best_effort[where result = windowsPartial
        and hdr = "''Target: Domain:target=host''" and rest = "[''Target: my-app/API_KEY'']"
        and pre = "[]"] w1 w2
    by blast
  then have c7: "enumerateWindows (Inr windowsPartial) = [\<lparr>service = ''my-app'', key = ''API_KEY''\<rparr>]"
    by (simp only: w3)
  from c1 c2 c3 c4 c5 c6 c7 show ?thesis by (intro conjI)
qed

end
